theory Spec2Isabelle
  imports Main
begin

section \<open>Memory model\<close>

text \<open>
  The program (src/main.cpp) is an AVL tree whose nodes live on the C++ heap and are
  linked by raw pointers; several of its routines mutate the links in place, and one of them
  (\<open>kSmallest\<close>) deliberately creates temporary cycles.  The embedding therefore keeps an
  explicit store.  A pointer is \<open>None\<close> (the null pointer) or \<open>Some a\<close> for a cell
  address \<open>a\<close>.  The store is a list of cells indexed by address; a cell is
  \<open>Some node\<close> while it is allocated and \<open>None\<close> once it has been released.
  \<open>new node\<close> takes the first address beyond the end of the list, so it is always fresh.

  Key values are C++ \<open>int\<close>s.  The program only compares and copies them, so they are
  modelled as HOL integers; the counters (\<open>elements\<close>, \<open>count\<close>, heights) are HOL
  integers too, which agrees with the program as long as fewer than \<open>2^31\<close> nodes exist.
\<close>

type_synonym ptr = "nat option"

text \<open>The field \<open>value\<close> of the source is \<open>val\<close> here.\<close>

record tree_node =
  val :: int
  left :: ptr
  right :: ptr

type_synonym heap = "tree_node option list"

text \<open>
  The object state: the store, the process-wide pointer \<open>root\<close> declared next to
  \<open>struct tree_node\<close>, and the private counter \<open>elements\<close> of class \<open>avl_tree\<close>.
\<close>

record avl_state =
  cells :: heap
  root :: ptr
  elements :: int

text \<open>
  Outcomes.  \<open>InvalidArgument\<close> is the exception thrown by \<open>kSmallest\<close>.
  Dereferencing the null pointer and touching a released cell are undefined behaviour in C++;
  the model makes them explicit faults.  A computation that does not return (unbounded
  recursion or an endless loop on a cyclic store) has the value \<open>None\<close>.
\<close>

datatype error = InvalidArgument | NullPointer | DanglingPointer

type_synonym 'a result = "(error + 'a) option"

definition ret :: "'a \<Rightarrow> 'a result" where
  "ret x = Some (Inr x)"

definition fail :: "error \<Rightarrow> 'a result" where
  "fail e = Some (Inl e)"

definition bind :: "'a result \<Rightarrow> ('a \<Rightarrow> 'b result) \<Rightarrow> 'b result" where
  "bind m f = (case m of None \<Rightarrow> None | Some (Inl e) \<Rightarrow> Some (Inl e) | Some (Inr x) \<Rightarrow> f x)"

lemma bind_mono [partial_function_mono]:
  fixes B :: "('a \<Rightarrow> 'b option) \<Rightarrow> 'c result"
    and C :: "'c \<Rightarrow> ('a \<Rightarrow> 'b option) \<Rightarrow> 'd result"
  assumes mf: "mono_option B" and mg: "\<And>y. mono_option (\<lambda>f. C y f)"
  shows "mono_option (\<lambda>f. bind (B f) (\<lambda>y. C y f))"
proof (rule monotoneI)
  fix f g :: "'a \<Rightarrow> 'b option"
  assume fg: "fun_ord option_ord f g"
  from mf fg have b: "option_ord (B f) (B g)" by (simp add: monotone_def)
  from mg fg have c: "\<And>y. option_ord (C y f) (C y g)" by (simp add: monotone_def)
  show "option_ord (bind (B f) (\<lambda>y. C y f)) (bind (B g) (\<lambda>y. C y g))"
  proof (cases "B f")
    case None
    then show ?thesis by (simp add: bind_def flat_ord_def)
  next
    case (Some r)
    with b have "B g = Some r" by (simp add: flat_ord_def)
    with Some c show ?thesis by (cases r) (simp_all add: bind_def flat_ord_def)
  qed
qed

text \<open>Reading through a pointer (\<open>p->field\<close>).\<close>

definition deref :: "heap \<Rightarrow> ptr \<Rightarrow> tree_node result" where
  "deref h p =
     (case p of
        None \<Rightarrow> fail NullPointer
      | Some a \<Rightarrow>
          if a < length h
          then (case h ! a of None \<Rightarrow> fail DanglingPointer | Some n \<Rightarrow> ret n)
          else fail DanglingPointer)"

text \<open>Writing a field through a pointer (\<open>p->field = x\<close>): the node is read at the time of the write.\<close>

definition update :: "heap \<Rightarrow> ptr \<Rightarrow> (tree_node \<Rightarrow> tree_node) \<Rightarrow> heap result" where
  "update h p f =
     (case p of
        None \<Rightarrow> fail NullPointer
      | Some a \<Rightarrow> bind (deref h p) (\<lambda>n. ret (h[a := Some (f n)])))"

text \<open>
  \<open>free(p)\<close>: the cell is released; releasing a released cell is a fault.  (The source
  releases with \<open>free\<close> what it allocated with \<open>new\<close>; the model takes this as the
  release of the node.)  A released address is never handed out again.
\<close>

definition free :: "heap \<Rightarrow> ptr \<Rightarrow> heap result" where
  "free h p =
     (case p of
        None \<Rightarrow> ret h
      | Some a \<Rightarrow> bind (deref h p) (\<lambda>n. ret (h[a := None])))"

section \<open>The routines of class \<open>avl_tree\<close>\<close>

text \<open>The constructor: \<open>root = nullptr; elements = 0\<close>, on a store without cells.\<close>

definition avl_tree :: avl_state where
  "avl_tree = \<lparr>cells = [], root = None, elements = 0\<rparr>"

partial_function (option) height :: "heap \<Rightarrow> ptr \<Rightarrow> int result" where
  "height h tree =
     (if tree \<noteq> None then
        bind (deref h tree) (\<lambda>n.
        bind (height h (left n)) (\<lambda>left_height.
        bind (height h (right n)) (\<lambda>right_height.
        ret (max left_height right_height + 1))))
      else ret 0)"

definition difference :: "heap \<Rightarrow> ptr \<Rightarrow> int result" where
  "difference h tree =
     bind (deref h tree) (\<lambda>n.
     bind (height h (left n)) (\<lambda>left_height.
     bind (height h (right n)) (\<lambda>right_height.
     ret (left_height - right_height))))"

partial_function (option) numNodes :: "heap \<Rightarrow> ptr \<Rightarrow> int result" where
  "numNodes h tree =
     (if tree = None then ret 0
      else
        bind (deref h tree) (\<lambda>n.
        bind (numNodes h (left n)) (\<lambda>a.
        bind (numNodes h (right n)) (\<lambda>b.
        ret (1 + a + b)))))"

partial_function (option) numNodesSmallerThan :: "heap \<Rightarrow> ptr \<Rightarrow> int \<Rightarrow> int result" where
  "numNodesSmallerThan h tree x =
     (if tree = None then ret 0
      else
        bind (deref h tree) (\<lambda>n.
        if val n = x then numNodes h (left n)
        else if val n < x then
          bind (numNodes h (left n)) (\<lambda>a.
          bind (numNodesSmallerThan h (right n) x) (\<lambda>b.
          ret (1 + a + b)))
        else numNodesSmallerThan h (left n) x))"

partial_function (option) numNodesGreaterThan :: "heap \<Rightarrow> ptr \<Rightarrow> int \<Rightarrow> int result" where
  "numNodesGreaterThan h tree x =
     (if tree = None then ret 0
      else
        bind (deref h tree) (\<lambda>n.
        if val n = x then numNodes h (right n)
        else if val n > x then
          bind (numNodes h (right n)) (\<lambda>a.
          bind (numNodesGreaterThan h (left n) x) (\<lambda>b.
          ret (1 + a + b)))
        else numNodesGreaterThan h (right n) x))"

definition getNumElements :: "avl_state \<Rightarrow> int" where
  "getNumElements s = elements s"

subsection \<open>\<open>kSmallest\<close>: the threaded traversal\<close>

text \<open>The inner loop \<open>while (pre->right != nullptr && pre->right != curr) pre = pre->right\<close>.\<close>

partial_function (option) kSmallest_pre :: "heap \<Rightarrow> ptr \<Rightarrow> ptr \<Rightarrow> ptr result" where
  "kSmallest_pre h cur pre =
     bind (deref h pre) (\<lambda>pn.
     if right pn \<noteq> None \<and> right pn \<noteq> cur then kSmallest_pre h cur (right pn)
     else ret pre)"

text \<open>
  The outer loop \<open>while (curr != nullptr)\<close>, with the loop variables \<open>count\<close>,
  \<open>ksmall\<close> and \<open>curr\<close> (here \<open>cur\<close>) as arguments; it returns the final store and \<open>ksmall\<close>.
\<close>

partial_function (option) kSmallest_loop ::
    "heap \<Rightarrow> int \<Rightarrow> int \<Rightarrow> int \<Rightarrow> ptr \<Rightarrow> (heap \<times> int) result" where
  "kSmallest_loop h k count ksmall cur =
     (if cur \<noteq> None then
        bind (deref h cur) (\<lambda>cn.
        if left cn = None then
          kSmallest_loop h k (count + 1) (if count + 1 = k then val cn else ksmall) (right cn)
        else
          bind (kSmallest_pre h cur (left cn)) (\<lambda>pre.
          bind (deref h pre) (\<lambda>pn.
          if right pn = None then
            bind (update h pre (\<lambda>n. n\<lparr>right := cur\<rparr>)) (\<lambda>h1.
            bind (deref h1 cur) (\<lambda>cn1.
            kSmallest_loop h1 k count ksmall (left cn1)))
          else
            bind (update h pre (\<lambda>n. n\<lparr>right := None\<rparr>)) (\<lambda>h1.
            bind (deref h1 cur) (\<lambda>cn1.
            kSmallest_loop h1 k (count + 1) (if count + 1 = k then val cn1 else ksmall)
              (right cn1))))))
      else ret (h, ksmall))"

definition INT_MIN :: int where
  "INT_MIN = - 2147483648"

definition kSmallest :: "avl_state \<Rightarrow> ptr \<Rightarrow> int \<Rightarrow> (avl_state \<times> int) result" where
  "kSmallest s rootNode k =
     (if k < 1 \<or> k > elements s then fail InvalidArgument
      else
        bind (kSmallest_loop (cells s) k 0 INT_MIN rootNode) (\<lambda>(h, ksmall).
        ret (s\<lparr>cells := h\<rparr>, ksmall)))"

subsection \<open>Rotations and \<open>balance\<close>\<close>

definition rr_rotation :: "heap \<Rightarrow> ptr \<Rightarrow> (heap \<times> ptr) result" where
  "rr_rotation h parent =
     bind (deref h parent) (\<lambda>pn.
     bind (deref h (right pn)) (\<lambda>tn.
     bind (update h parent (\<lambda>n. n\<lparr>right := left tn\<rparr>)) (\<lambda>h1.
     bind (update h1 (right pn) (\<lambda>n. n\<lparr>left := parent\<rparr>)) (\<lambda>h2.
     ret (h2, right pn)))))"

definition ll_rotation :: "heap \<Rightarrow> ptr \<Rightarrow> (heap \<times> ptr) result" where
  "ll_rotation h parent =
     bind (deref h parent) (\<lambda>pn.
     bind (deref h (left pn)) (\<lambda>tn.
     bind (update h parent (\<lambda>n. n\<lparr>left := right tn\<rparr>)) (\<lambda>h1.
     bind (update h1 (left pn) (\<lambda>n. n\<lparr>right := parent\<rparr>)) (\<lambda>h2.
     ret (h2, left pn)))))"

definition lr_rotation :: "heap \<Rightarrow> ptr \<Rightarrow> (heap \<times> ptr) result" where
  "lr_rotation h parent =
     bind (deref h parent) (\<lambda>pn.
     bind (rr_rotation h (left pn)) (\<lambda>(h1, t).
     bind (update h1 parent (\<lambda>n. n\<lparr>left := t\<rparr>)) (\<lambda>h2.
     ll_rotation h2 parent)))"

definition rl_rotation :: "heap \<Rightarrow> ptr \<Rightarrow> (heap \<times> ptr) result" where
  "rl_rotation h parent =
     bind (deref h parent) (\<lambda>pn.
     bind (ll_rotation h (right pn)) (\<lambda>(h1, t).
     bind (update h1 parent (\<lambda>n. n\<lparr>right := t\<rparr>)) (\<lambda>h2.
     rr_rotation h2 parent)))"

definition balance :: "heap \<Rightarrow> ptr \<Rightarrow> (heap \<times> ptr) result" where
  "balance h tree =
     bind (difference h tree) (\<lambda>balance_factor.
     if balance_factor > 1 then
       bind (deref h tree) (\<lambda>n.
       bind (difference h (left n)) (\<lambda>d.
       if d > 0 then ll_rotation h tree else lr_rotation h tree))
     else if balance_factor < - 1 then
       bind (deref h tree) (\<lambda>n.
       bind (difference h (right n)) (\<lambda>d.
       if d > 0 then rl_rotation h tree else rr_rotation h tree))
     else ret (h, tree))"

subsection \<open>\<open>insert\<close>, \<open>minValueNode\<close>, \<open>deleteNode\<close>, \<open>search\<close>, \<open>inorder\<close>\<close>

text \<open>\<open>avl_tree::insert\<close> (the name \<open>insert\<close> is taken by set insertion in HOL).\<close>

partial_function (option) insert_avl ::
    "avl_state \<Rightarrow> ptr \<Rightarrow> int \<Rightarrow> (avl_state \<times> ptr) result" where
  "insert_avl s rootNode v =
     (if rootNode = None then
        ret (s\<lparr>cells := cells s @ [Some \<lparr>val = v, left = None, right = None\<rparr>],
                elements := elements s + 1\<rparr>,
             Some (length (cells s)))
      else
        bind (deref (cells s) rootNode) (\<lambda>n.
        if v < val n then
          bind (insert_avl s (left n) v) (\<lambda>(s1, q).
          bind (update (cells s1) rootNode (\<lambda>n. n\<lparr>left := q\<rparr>)) (\<lambda>h2.
          bind (balance h2 rootNode) (\<lambda>(h3, r).
          ret (s1\<lparr>cells := h3\<rparr>, r))))
        else if v > val n then
          bind (insert_avl s (right n) v) (\<lambda>(s1, q).
          bind (update (cells s1) rootNode (\<lambda>n. n\<lparr>right := q\<rparr>)) (\<lambda>h2.
          bind (balance h2 rootNode) (\<lambda>(h3, r).
          ret (s1\<lparr>cells := h3\<rparr>, r))))
        else ret (s, rootNode)))"

partial_function (option) minValueNode :: "heap \<Rightarrow> ptr \<Rightarrow> ptr result" where
  "minValueNode h current =
     (if current \<noteq> None then
        bind (deref h current) (\<lambda>n.
        if left n \<noteq> None then minValueNode h (left n) else ret current)
      else ret current)"

text \<open>
  \<open>avl_tree::deleteNode\<close>.  The routine tests and reads the process-wide \<open>root\<close>
  (lines 297, 298, 309 and 313 of the source) where its sibling \<open>insert\<close> uses the argument
  \<open>rootNode\<close>; it decrements \<open>elements\<close> only on the two-children path (line 322); and it
  calls \<open>balance(rootNode)\<close> for its effect on the store but returns \<open>rootNode\<close>
  itself (lines 325, 326).  The model follows the source line by line.
\<close>

partial_function (option) deleteNode ::
    "avl_state \<Rightarrow> ptr \<Rightarrow> int \<Rightarrow> (avl_state \<times> ptr) result" where
  "deleteNode s rootNode v =
     (if root s = None then ret (s, root s)
      else
        bind (deref (cells s) rootNode) (\<lambda>n.
        if v < val n then
          bind (deleteNode s (left n) v) (\<lambda>(s1, q).
          bind (update (cells s1) rootNode (\<lambda>n. n\<lparr>left := q\<rparr>)) (\<lambda>h2.
          bind (balance h2 rootNode) (\<lambda>(h3, r).
          ret (s1\<lparr>cells := h3\<rparr>, rootNode))))
        else if v > val n then
          bind (deleteNode s (right n) v) (\<lambda>(s1, q).
          bind (update (cells s1) rootNode (\<lambda>n. n\<lparr>right := q\<rparr>)) (\<lambda>h2.
          bind (balance h2 rootNode) (\<lambda>(h3, r).
          ret (s1\<lparr>cells := h3\<rparr>, rootNode))))
        else if left n = None then
          bind (deref (cells s) (root s)) (\<lambda>rn.
          bind (free (cells s) rootNode) (\<lambda>h1.
          ret (s\<lparr>cells := h1\<rparr>, right rn)))
        else if right n = None then
          bind (deref (cells s) (root s)) (\<lambda>rn.
          bind (free (cells s) rootNode) (\<lambda>h1.
          ret (s\<lparr>cells := h1\<rparr>, left rn)))
        else
          bind (minValueNode (cells s) (right n)) (\<lambda>temp.
          bind (deref (cells s) temp) (\<lambda>tn.
          bind (update (cells s) rootNode (\<lambda>n. n\<lparr>val := val tn\<rparr>)) (\<lambda>h1.
          bind (deref h1 rootNode) (\<lambda>n1.
          bind (deref h1 temp) (\<lambda>tn1.
          bind (deleteNode (s\<lparr>cells := h1\<rparr>) (right n1) (val tn1)) (\<lambda>(s2, q).
          bind (update (cells s2) rootNode (\<lambda>n. n\<lparr>right := q\<rparr>)) (\<lambda>h3.
          bind (balance h3 rootNode) (\<lambda>(h4, r).
          ret (s2\<lparr>cells := h4, elements := elements s2 - 1\<rparr>, rootNode)))))))))))"

partial_function (option) search :: "heap \<Rightarrow> ptr \<Rightarrow> int \<Rightarrow> ptr result" where
  "search h tree v =
     (if tree = None then ret None
      else
        bind (deref h tree) (\<lambda>n.
        if val n = v then ret tree
        else if val n > v then search h (left n) v
        else search h (right n) v))"

text \<open>\<open>avl_tree::inorder\<close> prints the keys; the model returns the printed sequence.\<close>

partial_function (option) inorder :: "heap \<Rightarrow> ptr \<Rightarrow> int list result" where
  "inorder h tree =
     (if tree = None then ret []
      else
        bind (deref h tree) (\<lambda>n.
        bind (inorder h (left n)) (\<lambda>xs.
        bind (inorder h (right n)) (\<lambda>ys.
        ret (xs @ val n # ys)))))"

section \<open>The public operations\<close>

text \<open>
  Modelled from the spec: the caller of \<open>insert\<close> and \<open>deleteNode\<close> is absent from
  src/ (\<open>main\<close> only prints a greeting).  Section 4.1 of the specification says that the
  caller must rebind the tree root to the returned pointer, and section 6 lists
  \<open>insert(value)\<close> and \<open>delete(value)\<close> as the public operations; so a public operation
  passes the shared \<open>root\<close> and stores the returned pointer back into it.
\<close>

definition insert_op :: "avl_state \<Rightarrow> int \<Rightarrow> avl_state result" where
  "insert_op s v = bind (insert_avl s (root s) v) (\<lambda>(s1, r). ret (s1\<lparr>root := r\<rparr>))"

definition delete_op :: "avl_state \<Rightarrow> int \<Rightarrow> avl_state result" where
  "delete_op s v = bind (deleteNode s (root s) v) (\<lambda>(s1, r). ret (s1\<lparr>root := r\<rparr>))"

datatype operation = Insert int | Delete int

fun run :: "avl_state \<Rightarrow> operation list \<Rightarrow> avl_state result" where
  "run s [] = ret s"
| "run s (Insert v # ops) = bind (insert_op s v) (\<lambda>s1. run s1 ops)"
| "run s (Delete v # ops) = bind (delete_op s v) (\<lambda>s1. run s1 ops)"

section \<open>Abstract trees and their layout in the store\<close>

text \<open>
  The properties below are stated against the tree a store holds.  A \<open>shape\<close> records, for
  every node, its address and its key: \<open>Fork l a v r\<close> is the node at address \<open>a\<close> with
  key \<open>v\<close>, left subtree \<open>l\<close> and right subtree \<open>r\<close>.
\<close>

datatype shape = Tip | Fork shape nat int shape

fun addrs :: "shape \<Rightarrow> nat list" where
  "addrs Tip = []"
| "addrs (Fork l a v r) = addrs l @ a # addrs r"

fun keys :: "shape \<Rightarrow> int list" where
  "keys Tip = []"
| "keys (Fork l a v r) = keys l @ v # keys r"

fun ht :: "shape \<Rightarrow> int" where
  "ht Tip = 0"
| "ht (Fork l a v r) = max (ht l) (ht r) + 1"

fun entry :: "shape \<Rightarrow> ptr" where
  "entry Tip = None"
| "entry (Fork l a v r) = Some a"

fun linked :: "heap \<Rightarrow> ptr \<Rightarrow> shape \<Rightarrow> ptr \<Rightarrow> bool" where
  "linked h nxt Tip p = (p = nxt)"
| "linked h nxt (Fork l a v r) p =
     (p = Some a \<and> a < length h \<and>
      (case h ! a of
         None \<Rightarrow> False
       | Some n \<Rightarrow> val n = v \<and> linked h None l (left n) \<and> linked h nxt r (right n)))"

definition tree_at :: "heap \<Rightarrow> shape \<Rightarrow> ptr \<Rightarrow> bool" where
  "tree_at h t p = (linked h None t p \<and> distinct (addrs t))"

fun bst :: "shape \<Rightarrow> bool" where
  "bst Tip = True"
| "bst (Fork l a v r) =
     (bst l \<and> bst r \<and> list_all (\<lambda>k. k < v) (keys l) \<and> list_all (\<lambda>k. v < k) (keys r))"

fun avl :: "shape \<Rightarrow> bool" where
  "avl Tip = True"
| "avl (Fork l a v r) = (avl l \<and> avl r \<and> \<bar>ht l - ht r\<bar> \<le> 1)"

text \<open>
  \<open>pick k c vs ks\<close> is the value of \<open>ksmall\<close> after a traversal that starts with
  \<open>count = c\<close>, \<open>ksmall = ks\<close> and visits the keys \<open>vs\<close> in this order.
\<close>

definition pick :: "int \<Rightarrow> int \<Rightarrow> int list \<Rightarrow> int \<Rightarrow> int" where
  "pick k c vs ks = (if c < k \<and> k \<le> c + int (length vs) then vs ! nat (k - c - 1) else ks)"

text \<open>
  The rotations and the decision table as sections 4.1 and 4.2 of the specification describe
  them, on abstract trees.  A rotation whose pivot child is absent is given no meaning by
  the specification; these functions then leave the tree as it is.
\<close>

fun rotate_left :: "shape \<Rightarrow> shape" where
  "rotate_left (Fork l a v (Fork rl b w rr)) = Fork (Fork l a v rl) b w rr"
| "rotate_left t = t"

fun rotate_right :: "shape \<Rightarrow> shape" where
  "rotate_right (Fork (Fork ll b w lr) a v r) = Fork ll b w (Fork lr a v r)"
| "rotate_right t = t"

fun rotate_left_right :: "shape \<Rightarrow> shape" where
  "rotate_left_right (Fork l a v r) = rotate_right (Fork (rotate_left l) a v r)"
| "rotate_left_right Tip = Tip"

fun rotate_right_left :: "shape \<Rightarrow> shape" where
  "rotate_right_left (Fork l a v r) = rotate_left (Fork l a v (rotate_right r))"
| "rotate_right_left Tip = Tip"

fun bfactor :: "shape \<Rightarrow> int" where
  "bfactor Tip = 0"
| "bfactor (Fork l a v r) = ht l - ht r"

fun balance_table :: "shape \<Rightarrow> shape" where
  "balance_table Tip = Tip"
| "balance_table (Fork l a v r) =
     (if bfactor (Fork l a v r) > 1 then
        (if bfactor l > 0 then rotate_right (Fork l a v r) else rotate_left_right (Fork l a v r))
      else if bfactor (Fork l a v r) < - 1 then
        (if bfactor r > 0 then rotate_right_left (Fork l a v r) else rotate_left (Fork l a v r))
      else Fork l a v r)"

text \<open>
  Insertion on abstract trees, the counterpart of \<open>insert\<close>: \<open>a0\<close> is the address of
  the node that is allocated when the key is new.  \<open>invariant s t\<close> says that the state
  \<open>s\<close> holds the tree \<open>t\<close> at its root and that the four invariants of the data model
  hold (a strict search order makes the keys unique).
\<close>

fun ins :: "nat \<Rightarrow> int \<Rightarrow> shape \<Rightarrow> shape" where
  "ins a0 v Tip = Fork Tip a0 v Tip"
| "ins a0 v (Fork l a w r) =
     (if v < w then balance_table (Fork (ins a0 v l) a w r)
      else if v > w then balance_table (Fork l a w (ins a0 v r))
      else Fork l a w r)"

definition invariant :: "avl_state \<Rightarrow> shape \<Rightarrow> bool" where
  "invariant s t =
     (tree_at (cells s) t (root s) \<and> bst t \<and> avl t \<and> elements s = int (length (keys t)))"

section \<open>Example stores\<close>

text \<open>
  The store reached by inserting 2, 1 and 3 into the empty tree: the node with key 2 at
  address 0, its children with keys 1 and 3 at addresses 1 and 2.
\<close>

definition ex_cells :: heap where
  "ex_cells =
     [Some \<lparr>val = 2, left = Some 1, right = Some 2\<rparr>,
      Some \<lparr>val = 1, left = None, right = None\<rparr>,
      Some \<lparr>val = 3, left = None, right = None\<rparr>]"

definition ex_shape :: shape where
  "ex_shape = Fork (Fork Tip 1 1 Tip) 0 2 (Fork Tip 2 3 Tip)"

definition ex_state :: avl_state where
  "ex_state = \<lparr>cells = ex_cells, root = Some 0, elements = 3\<rparr>"

text \<open>
  A degenerate tree, the keys 1, 2, 3 linked to the right, and the store that a left
  rotation at its top node produces.
\<close>

definition chain_cells :: heap where
  "chain_cells =
     [Some \<lparr>val = 1, left = None, right = Some 1\<rparr>,
      Some \<lparr>val = 2, left = None, right = Some 2\<rparr>,
      Some \<lparr>val = 3, left = None, right = None\<rparr>]"

definition chain_shape :: shape where
  "chain_shape = Fork Tip 0 1 (Fork Tip 1 2 (Fork Tip 2 3 Tip))"

definition rotated_cells :: heap where
  "rotated_cells =
     [Some \<lparr>val = 1, left = None, right = None\<rparr>,
      Some \<lparr>val = 2, left = Some 0, right = Some 2\<rparr>,
      Some \<lparr>val = 3, left = None, right = None\<rparr>]"

section \<open>Basic facts about the store\<close>

lemma bind_ret [simp]: "bind (ret x) f = f x"
  by (simp add: bind_def ret_def)

lemma bind_fail [simp]: "bind (fail e) f = fail e"
  by (simp add: bind_def fail_def)

lemma ret_inject [simp]: "(ret x = ret y) = (x = y)"
  by (simp add: ret_def)

lemma ret_not_fail [simp]: "ret x \<noteq> fail e" "fail e \<noteq> ret x" "ret x \<noteq> None" "fail e \<noteq> None"
  by (simp_all add: ret_def fail_def)

lemma deref_cell: "a < length h \<Longrightarrow> h ! a = Some n \<Longrightarrow> deref h (Some a) = ret n"
  by (simp add: deref_def)

lemma update_cell:
  "a < length h \<Longrightarrow> h ! a = Some n \<Longrightarrow> update h (Some a) f = ret (h[a := Some (f n)])"
  by (simp add: update_def deref_cell)

lemma linked_Fork:
  "linked h nxt (Fork l a v r) p \<longleftrightarrow>
     p = Some a \<and> a < length h \<and>
     (\<exists>n. h ! a = Some n \<and> val n = v \<and> linked h None l (left n) \<and> linked h nxt r (right n))"
  by (auto split: option.splits)

lemmas linked_simps = linked.simps(1) linked_Fork

declare linked.simps [simp del]
declare linked_simps [simp]

lemma linked_None: "linked h None t None \<longleftrightarrow> t = Tip"
  by (cases t) auto

lemma ht_nonneg: "0 \<le> ht t"
  by (induction t) auto

lemma height_linked: "linked h None t p \<Longrightarrow> height h p = ret (ht t)"
proof (induction t arbitrary: p)
  case Tip
  then show ?case by (simp add: height.simps)
next
  case (Fork l a v r)
  from Fork.prems obtain n where n: "p = Some a" "a < length h" "h ! a = Some n"
    "linked h None l (left n)" "linked h None r (right n)"
    by auto
  show ?case
    by (subst height.simps) (simp add: n deref_cell Fork.IH(1)[OF n(4)] Fork.IH(2)[OF n(5)])
qed

lemma linked_cong:
  "linked h nxt t p \<Longrightarrow> length h \<le> length h' \<Longrightarrow> \<forall>a \<in> set (addrs t). h' ! a = h ! a
     \<Longrightarrow> linked h' nxt t p"
proof (induction t arbitrary: p nxt)
  case Tip
  then show ?case by simp
next
  case (Fork l a v r)
  from Fork.prems(1) obtain n where n: "p = Some a" "a < length h" "h ! a = Some n" "val n = v"
    "linked h None l (left n)" "linked h nxt r (right n)"
    by auto
  have "linked h' None l (left n)" "linked h' nxt r (right n)"
    using Fork.IH(1)[OF n(5)] Fork.IH(2)[OF n(6)] Fork.prems(2,3) by auto
  moreover have "h' ! a = Some n" using Fork.prems(3) n(3) by simp
  ultimately show ?case using n Fork.prems(2) by auto
qed

lemma linked_update:
  "linked h nxt t p \<Longrightarrow> a \<notin> set (addrs t) \<Longrightarrow> linked (h[a := x]) nxt t p"
proof (rule linked_cong)
  assume "a \<notin> set (addrs t)"
  then show "\<forall>b \<in> set (addrs t). h[a := x] ! b = h ! b"
    by (metis nth_list_update_neq)
qed simp_all

section \<open>The threaded traversal\<close>

lemma pick_Nil [simp]: "pick k c [] ks = ks"
  by (simp add: pick_def)

lemma pick_append_Cons:
  "pick k c (xs @ v # ys) ks =
     pick k (c + int (length xs) + 1) ys
       (if c + int (length xs) + 1 = k then v else pick k c xs ks)"
proof -
  consider "k \<le> c" | "c < k" "k \<le> c + int (length xs)" | "k = c + int (length xs) + 1"
    | "c + int (length xs) + 1 < k" "k \<le> c + int (length xs) + 1 + int (length ys)"
    | "c + int (length xs) + 1 + int (length ys) < k"
    by linarith
  then show ?thesis
  proof cases
    case 1
    then show ?thesis by (simp add: pick_def)
  next
    case 2
    then have "nat (k - c - 1) < length xs" by linarith
    with 2 show ?thesis by (simp add: pick_def nth_append)
  next
    case 3
    then have "nat (k - c - 1) = length xs" by simp
    with 3 show ?thesis by (simp add: pick_def)
  next
    case 4
    then have "nat (k - c - 1) = length xs + Suc (nat (k - (c + int (length xs) + 1) - 1))"
      by linarith
    with 4 show ?thesis by (simp add: pick_def nth_append)
  next
    case 5
    then show ?thesis by (simp add: pick_def)
  qed
qed

lemma addrs_Nil [simp]: "addrs t = [] \<longleftrightarrow> t = Tip"
  by (cases t) auto

lemma length_addrs: "length (addrs t) = length (keys t)"
  by (induction t) auto

lemma linked_entry:
  "linked h x t p \<Longrightarrow> t \<noteq> Tip \<Longrightarrow> \<exists>a. p = Some a \<and> a \<in> set (addrs t)"
  by (cases t) auto

lemma last_cell:
  "linked h x l pl \<Longrightarrow> l \<noteq> Tip \<Longrightarrow>
     last (addrs l) < length h \<and> (\<exists>n. h ! last (addrs l) = Some n \<and> right n = x)"
proof (induction l arbitrary: pl)
  case Tip
  then show ?case by simp
next
  case (Fork ll b w lr)
  from Fork.prems(1) obtain n where n: "pl = Some b" "b < length h" "h ! b = Some n"
    "linked h x lr (right n)"
    by auto
  show ?case
  proof (cases "lr = Tip")
    case True
    with n show ?thesis by simp
  next
    case False
    from Fork.IH(2)[OF n(4) False] show ?thesis using False by simp
  qed
qed

lemma pre_walk:
  "linked h x l pl \<Longrightarrow> l \<noteq> Tip \<Longrightarrow> x = None \<or> x = cur \<Longrightarrow>
     \<forall>b \<in> set (addrs l). cur \<noteq> Some b \<Longrightarrow>
     kSmallest_pre h cur pl = ret (Some (last (addrs l)))"
proof (induction l arbitrary: pl)
  case Tip
  then show ?case by simp
next
  case (Fork ll b w lr)
  from Fork.prems(1) obtain n where n: "pl = Some b" "b < length h" "h ! b = Some n"
    "linked h x lr (right n)"
    by auto
  show ?case
  proof (cases "lr = Tip")
    case True
    with n Fork.prems(3) show ?thesis
      by (subst kSmallest_pre.simps) (auto simp: deref_cell)
  next
    case ne: False
    from linked_entry[OF n(4) ne] obtain a1 where r: "right n = Some a1" "a1 \<in> set (addrs lr)"
      by auto
    with Fork.prems(4) have "cur \<noteq> Some a1" by simp
    moreover have "kSmallest_pre h cur (right n) = ret (Some (last (addrs lr)))"
      using Fork.IH(2)[OF n(4) ne Fork.prems(3)] Fork.prems(4) by simp
    ultimately show ?thesis using n r ne
      by (subst kSmallest_pre.simps) (auto simp: deref_cell)
  qed
qed

lemma thread:
  "linked h x l pl \<Longrightarrow> l \<noteq> Tip \<Longrightarrow> distinct (addrs l) \<Longrightarrow> h ! last (addrs l) = Some n \<Longrightarrow>
     linked (h[last (addrs l) := Some (n\<lparr>right := y\<rparr>)]) y l pl"
proof (induction l arbitrary: pl)
  case Tip
  then show ?case by simp
next
  case (Fork ll b w lr)
  from Fork.prems(1) obtain nb where nb: "pl = Some b" "b < length h" "h ! b = Some nb"
    "val nb = w" "linked h None ll (left nb)" "linked h x lr (right nb)"
    by auto
  from Fork.prems(3) have d: "b \<notin> set (addrs ll)" "b \<notin> set (addrs lr)"
    "distinct (addrs lr)" "set (addrs ll) \<inter> set (addrs lr) = {}"
    by auto
  show ?case
  proof (cases "lr = Tip")
    case True
    with Fork.prems(4) nb have "n = nb" by simp
    with True nb d show ?thesis by (simp add: linked_update)
  next
    case ne: False
    let ?m = "last (addrs lr)"
    have m: "?m \<in> set (addrs lr)" using ne by simp
    then have mb: "?m \<noteq> b" and mll: "?m \<notin> set (addrs ll)" using d by auto
    have hm: "h ! ?m = Some n" using Fork.prems(4) ne by simp
    have "linked (h[?m := Some (n\<lparr>right := y\<rparr>)]) y lr (right nb)"
      by (rule Fork.IH(2)[OF nb(6) ne d(3) hm])
    moreover have "linked (h[?m := Some (n\<lparr>right := y\<rparr>)]) None ll (left nb)"
      by (rule linked_update[OF nb(5) mll])
    ultimately show ?thesis using nb mb ne by simp
  qed
qed

lemma loop_traverse:
  "linked h nxt t p \<Longrightarrow> distinct (addrs t) \<Longrightarrow>
     kSmallest_loop h k c ks p =
       kSmallest_loop h k (c + int (length (keys t))) (pick k c (keys t) ks) nxt"
proof (induction t arbitrary: h nxt p c ks)
  case Tip
  then show ?case by simp
next
  case (Fork l a v r)
  from Fork.prems(1) obtain n where n: "p = Some a" "a < length h" "h ! a = Some n"
    "val n = v" "linked h None l (left n)" "linked h nxt r (right n)"
    by auto
  from Fork.prems(2) have d: "a \<notin> set (addrs l)" "distinct (addrs l)" "distinct (addrs r)"
    by auto
  let ?c1 = "c + int (length (keys l)) + 1"
  let ?ks1 = "if ?c1 = k then v else pick k c (keys l) ks"
  have eq1: "?c1 + int (length (keys r)) = c + int (length (keys (Fork l a v r)))"
    by simp
  have eq2: "pick k ?c1 (keys r) ?ks1 = pick k c (keys (Fork l a v r)) ks"
    by (simp add: pick_append_Cons)
  have "kSmallest_loop h k ?c1 ?ks1 (right n) =
      kSmallest_loop h k (?c1 + int (length (keys r))) (pick k ?c1 (keys r) ?ks1) nxt"
    by (rule Fork.IH(2)[OF n(6) d(3)])
  then have right_part: "kSmallest_loop h k ?c1 ?ks1 (right n) =
      kSmallest_loop h k (c + int (length (keys (Fork l a v r))))
        (pick k c (keys (Fork l a v r)) ks) nxt"
    by (simp only: eq1 eq2)
  show ?case
  proof (cases "l = Tip")
    case True
    with n(5) have ln: "left n = None" by simp
    have e: "?c1 = c + 1" "pick k c (keys l) ks = ks" using True by simp_all
    have "kSmallest_loop h k c ks p = kSmallest_loop h k ?c1 ?ks1 (right n)"
      unfolding e using n ln by (subst kSmallest_loop.simps) (simp add: deref_cell)
    also note right_part
    finally show ?thesis .
  next
    case ne: False
    from linked_entry[OF n(5) ne] obtain a1 where ln: "left n = Some a1" by auto
    let ?m = "last (addrs l)"
    from last_cell[OF n(5) ne] obtain pn where pn: "?m < length h" "h ! ?m = Some pn" "right pn = None"
      by auto
    have m: "?m \<in> set (addrs l)" using ne by simp
    with d have ma: "?m \<noteq> a" by auto
    let ?h1 = "h[?m := Some (pn\<lparr>right := Some a\<rparr>)]"
    have pre0: "kSmallest_pre h (Some a) (left n) = ret (Some ?m)"
      using pre_walk[OF n(5) ne, of "Some a"] d(1) by auto
    have first: "kSmallest_loop h k c ks p = kSmallest_loop ?h1 k c ks (left n)"
      using n ln pn ma pre0
      by (subst kSmallest_loop.simps) (simp add: deref_cell update_cell)
    have l1: "linked ?h1 (Some a) l (left n)"
      by (rule thread[OF n(5) ne d(2) pn(2)])
    have second: "kSmallest_loop ?h1 k c ks (left n) =
        kSmallest_loop ?h1 k (c + int (length (keys l))) (pick k c (keys l) ks) (Some a)"
      by (rule Fork.IH(1)[OF l1 d(2)])
    have pre1: "kSmallest_pre ?h1 (Some a) (left n) = ret (Some ?m)"
      using pre_walk[OF l1 ne, of "Some a"] d(1) by auto
    have undo: "list_update ?h1 ?m (Some (pn\<lparr>right := Some a, right := None\<rparr>)) = h"
      using pn by (simp add: list_update_same_conv)
    have third: "kSmallest_loop ?h1 k (c + int (length (keys l))) (pick k c (keys l) ks) (Some a) =
        kSmallest_loop h k ?c1 ?ks1 (right n)"
      using n ln pn ma pre1 undo
      by (subst kSmallest_loop.simps) (simp add: deref_cell update_cell)
    note first
    also note second
    also note third
    also note right_part
    finally show ?thesis .
  qed
qed

section \<open>Rotations\<close>

lemma difference_linked:
  "linked h None (Fork l a v r) p \<Longrightarrow> difference h p = ret (ht l - ht r)"
  by (auto simp: difference_def deref_cell height_linked)

lemma balance_noop:
  assumes "linked h None (Fork l a v r) p" and "\<bar>ht l - ht r\<bar> \<le> 1"
  shows "balance h p = ret (h, p)"
  using difference_linked[OF assms(1)] assms(2) by (auto simp: balance_def)

lemma rr_rotation_linked:
  assumes "linked h None (Fork l a v (Fork rl b w rr)) p"
    and "distinct (addrs (Fork l a v (Fork rl b w rr)))"
  shows "\<exists>h'. rr_rotation h p = ret (h', Some b) \<and>
           linked h' None (Fork (Fork l a v rl) b w rr) (Some b) \<and>
           length h' = length h \<and> (\<forall>c. c \<noteq> a \<and> c \<noteq> b \<longrightarrow> h' ! c = h ! c)"
proof -
  from assms(1) obtain na nb where
    na: "p = Some a" "a < length h" "h ! a = Some na" "val na = v" "linked h None l (left na)"
      "right na = Some b"
    and nb: "b < length h" "h ! b = Some nb" "val nb = w" "linked h None rl (left nb)"
      "linked h None rr (right nb)"
    by auto
  from assms(2) have d: "a \<noteq> b" "a \<notin> set (addrs l)" "b \<notin> set (addrs l)"
    "a \<notin> set (addrs rl)" "b \<notin> set (addrs rl)" "a \<notin> set (addrs rr)" "b \<notin> set (addrs rr)"
    by auto
  let ?h1 = "h[a := Some (na\<lparr>right := left nb\<rparr>)]"
  let ?h2 = "?h1[b := Some (nb\<lparr>left := Some a\<rparr>)]"
  have run: "rr_rotation h p = ret (?h2, Some b)"
    using na nb d(1) by (simp add: rr_rotation_def deref_cell update_cell)
  have "linked ?h2 None l (left na)" "linked ?h2 None rl (left nb)" "linked ?h2 None rr (right nb)"
    using na(5) nb(4,5) d by (simp_all add: linked_update)
  then have lk: "linked ?h2 None (Fork (Fork l a v rl) b w rr) (Some b)"
    using na nb d(1) by simp
  have fr: "length ?h2 = length h" "\<forall>c. c \<noteq> a \<and> c \<noteq> b \<longrightarrow> ?h2 ! c = h ! c"
    by simp_all
  from run lk fr show ?thesis by blast
qed

lemma ll_rotation_linked:
  assumes "linked h None (Fork (Fork ll b w lr) a v r) p"
    and "distinct (addrs (Fork (Fork ll b w lr) a v r))"
  shows "\<exists>h'. ll_rotation h p = ret (h', Some b) \<and>
           linked h' None (Fork ll b w (Fork lr a v r)) (Some b) \<and>
           length h' = length h \<and> (\<forall>c. c \<noteq> a \<and> c \<noteq> b \<longrightarrow> h' ! c = h ! c)"
proof -
  from assms(1) obtain na nb where
    na: "p = Some a" "a < length h" "h ! a = Some na" "val na = v" "linked h None r (right na)"
      "left na = Some b"
    and nb: "b < length h" "h ! b = Some nb" "val nb = w" "linked h None ll (left nb)"
      "linked h None lr (right nb)"
    by auto
  from assms(2) have d: "a \<noteq> b" "a \<notin> set (addrs r)" "b \<notin> set (addrs r)"
    "a \<notin> set (addrs ll)" "b \<notin> set (addrs ll)" "a \<notin> set (addrs lr)" "b \<notin> set (addrs lr)"
    by auto
  let ?h1 = "h[a := Some (na\<lparr>left := right nb\<rparr>)]"
  let ?h2 = "?h1[b := Some (nb\<lparr>right := Some a\<rparr>)]"
  have run: "ll_rotation h p = ret (?h2, Some b)"
    using na nb d(1) by (simp add: ll_rotation_def deref_cell update_cell)
  have "linked ?h2 None r (right na)" "linked ?h2 None ll (left nb)" "linked ?h2 None lr (right nb)"
    using na(5) nb(4,5) d by (simp_all add: linked_update)
  then have lk: "linked ?h2 None (Fork ll b w (Fork lr a v r)) (Some b)"
    using na nb d(1) by simp
  have fr: "length ?h2 = length h" "\<forall>c. c \<noteq> a \<and> c \<noteq> b \<longrightarrow> ?h2 ! c = h ! c"
    by simp_all
  from run lk fr show ?thesis by blast
qed

lemma lr_rotation_linked:
  assumes "linked h None (Fork (Fork ll b w (Fork lrl c x lrr)) a v r) p"
    and "distinct (addrs (Fork (Fork ll b w (Fork lrl c x lrr)) a v r))"
  shows "\<exists>h'. lr_rotation h p = ret (h', Some c) \<and>
           linked h' None (Fork (Fork ll b w lrl) c x (Fork lrr a v r)) (Some c) \<and>
           length h' = length h \<and> (\<forall>e. e \<noteq> a \<and> e \<noteq> b \<and> e \<noteq> c \<longrightarrow> h' ! e = h ! e)"
proof -
  from assms(1) obtain na where
    na: "p = Some a" "a < length h" "h ! a = Some na" "val na = v" "linked h None r (right na)"
      "linked h None (Fork ll b w (Fork lrl c x lrr)) (left na)"
    by auto
  from assms(2) have d: "distinct (addrs (Fork ll b w (Fork lrl c x lrr)))" "a \<noteq> b" "a \<noteq> c"
    "b \<notin> set (addrs r)" "c \<notin> set (addrs r)" "a \<notin> set (addrs r)"
    "a \<notin> set (addrs (Fork (Fork ll b w lrl) c x lrr))"
    by auto
  from rr_rotation_linked[OF na(6) d(1)] obtain h1 where
    h1: "rr_rotation h (left na) = ret (h1, Some c)"
      "linked h1 None (Fork (Fork ll b w lrl) c x lrr) (Some c)"
      "length h1 = length h" "\<forall>e. e \<noteq> b \<and> e \<noteq> c \<longrightarrow> h1 ! e = h ! e"
    by blast
  have a1: "h1 ! a = Some na" using h1(4) d(2,3) na(3) by simp
  have r1: "linked h1 None r (right na)"
    using na(5) by (rule linked_cong) (use h1(3,4) d(4,5) in auto)
  let ?h2 = "h1[a := Some (na\<lparr>left := Some c\<rparr>)]"
  have "linked ?h2 None (Fork (Fork ll b w lrl) c x lrr) (Some c)"
    by (rule linked_update[OF h1(2) d(7)])
  moreover have "linked ?h2 None r (right na)"
    by (rule linked_update[OF r1 d(6)])
  ultimately have l2: "linked ?h2 None (Fork (Fork (Fork ll b w lrl) c x lrr) a v r) (Some a)"
    using na h1(3) by simp
  have d2: "distinct (addrs (Fork (Fork (Fork ll b w lrl) c x lrr) a v r))"
    using assms(2) by simp
  from ll_rotation_linked[OF l2 d2] obtain h3 where
    h3: "ll_rotation ?h2 (Some a) = ret (h3, Some c)"
      "linked h3 None (Fork (Fork ll b w lrl) c x (Fork lrr a v r)) (Some c)"
      "length h3 = length ?h2" "\<forall>e. e \<noteq> a \<and> e \<noteq> c \<longrightarrow> h3 ! e = ?h2 ! e"
    by blast
  have run: "lr_rotation h p = ret (h3, Some c)"
    using na h1(1,3) a1 h3(1) by (simp add: lr_rotation_def deref_cell update_cell)
  have fr: "length h3 = length h" "\<forall>e. e \<noteq> a \<and> e \<noteq> b \<and> e \<noteq> c \<longrightarrow> h3 ! e = h ! e"
    using h3(3,4) h1(3,4) by simp_all
  from run h3(2) fr show ?thesis by blast
qed

lemma rl_rotation_linked:
  assumes "linked h None (Fork l a v (Fork (Fork rll c x rlr) b w rr)) p"
    and "distinct (addrs (Fork l a v (Fork (Fork rll c x rlr) b w rr)))"
  shows "\<exists>h'. rl_rotation h p = ret (h', Some c) \<and>
           linked h' None (Fork (Fork l a v rll) c x (Fork rlr b w rr)) (Some c) \<and>
           length h' = length h \<and> (\<forall>e. e \<noteq> a \<and> e \<noteq> b \<and> e \<noteq> c \<longrightarrow> h' ! e = h ! e)"
proof -
  from assms(1) obtain na where
    na: "p = Some a" "a < length h" "h ! a = Some na" "val na = v" "linked h None l (left na)"
      "linked h None (Fork (Fork rll c x rlr) b w rr) (right na)"
    by auto
  from assms(2) have d: "distinct (addrs (Fork (Fork rll c x rlr) b w rr))" "a \<noteq> b" "a \<noteq> c"
    "b \<notin> set (addrs l)" "c \<notin> set (addrs l)" "a \<notin> set (addrs l)"
    "a \<notin> set (addrs (Fork rll c x (Fork rlr b w rr)))"
    by auto
  from ll_rotation_linked[OF na(6) d(1)] obtain h1 where
    h1: "ll_rotation h (right na) = ret (h1, Some c)"
      "linked h1 None (Fork rll c x (Fork rlr b w rr)) (Some c)"
      "length h1 = length h" "\<forall>e. e \<noteq> b \<and> e \<noteq> c \<longrightarrow> h1 ! e = h ! e"
    by blast
  have a1: "h1 ! a = Some na" using h1(4) d(2,3) na(3) by simp
  have r1: "linked h1 None l (left na)"
    using na(5) by (rule linked_cong) (use h1(3,4) d(4,5) in auto)
  let ?h2 = "h1[a := Some (na\<lparr>right := Some c\<rparr>)]"
  have "linked ?h2 None (Fork rll c x (Fork rlr b w rr)) (Some c)"
    by (rule linked_update[OF h1(2) d(7)])
  moreover have "linked ?h2 None l (left na)"
    by (rule linked_update[OF r1 d(6)])
  ultimately have l2: "linked ?h2 None (Fork l a v (Fork rll c x (Fork rlr b w rr))) (Some a)"
    using na h1(3) by simp
  have d2: "distinct (addrs (Fork l a v (Fork rll c x (Fork rlr b w rr))))"
    using assms(2) by simp
  from rr_rotation_linked[OF l2 d2] obtain h3 where
    h3: "rr_rotation ?h2 (Some a) = ret (h3, Some c)"
      "linked h3 None (Fork (Fork l a v rll) c x (Fork rlr b w rr)) (Some c)"
      "length h3 = length ?h2" "\<forall>e. e \<noteq> a \<and> e \<noteq> c \<longrightarrow> h3 ! e = ?h2 ! e"
    by blast
  have run: "rl_rotation h p = ret (h3, Some c)"
    using na h1(1,3) a1 h3(1) by (simp add: rl_rotation_def deref_cell update_cell)
  have fr: "length h3 = length h" "\<forall>e. e \<noteq> a \<and> e \<noteq> b \<and> e \<noteq> c \<longrightarrow> h3 ! e = h ! e"
    using h3(3,4) h1(3,4) by simp_all
  from run h3(2) fr show ?thesis by blast
qed

section \<open>\<open>balance\<close> against the decision table\<close>

lemma ht_pos: "0 < ht t \<Longrightarrow> \<exists>l a v r. t = Fork l a v r"
  by (cases t) auto

lemma addrs_balance_table: "addrs (balance_table t) = addrs t"
proof (cases t)
  case Tip
  then show ?thesis by simp
next
  case (Fork l a v r)
  show ?thesis
  proof (cases l; cases r)
    fix l1 a1 v1 r1 l2 a2 v2 r2
    assume "l = Fork l1 a1 v1 r1" "r = Fork l2 a2 v2 r2"
    with Fork show ?thesis by (cases r1; cases l2) auto
  next
    fix l1 a1 v1 r1
    assume "l = Fork l1 a1 v1 r1" "r = Tip"
    with Fork show ?thesis by (cases r1) auto
  next
    fix l2 a2 v2 r2
    assume "l = Tip" "r = Fork l2 a2 v2 r2"
    with Fork show ?thesis by (cases l2) auto
  qed (use Fork in auto)
qed

lemma keys_balance_table: "keys (balance_table t) = keys t"
proof (cases t)
  case Tip
  then show ?thesis by simp
next
  case (Fork l a v r)
  show ?thesis
  proof (cases l; cases r)
    fix l1 a1 v1 r1 l2 a2 v2 r2
    assume "l = Fork l1 a1 v1 r1" "r = Fork l2 a2 v2 r2"
    with Fork show ?thesis by (cases r1; cases l2) auto
  next
    fix l1 a1 v1 r1
    assume "l = Fork l1 a1 v1 r1" "r = Tip"
    with Fork show ?thesis by (cases r1) auto
  next
    fix l2 a2 v2 r2
    assume "l = Tip" "r = Fork l2 a2 v2 r2"
    with Fork show ?thesis by (cases l2) auto
  qed (use Fork in auto)
qed

lemma balance_refines:
  assumes lk: "linked h None (Fork l a v r) p" and ds: "distinct (addrs (Fork l a v r))"
  shows "\<exists>h'. balance h p = ret (h', entry (balance_table (Fork l a v r))) \<and>
           linked h' None (balance_table (Fork l a v r)) (entry (balance_table (Fork l a v r))) \<and>
           length h' = length h \<and>
           (\<forall>e. e \<notin> set (addrs (Fork l a v r)) \<longrightarrow> h' ! e = h ! e)"
proof -
  from lk obtain n where n: "p = Some a" "a < length h" "h ! a = Some n"
    "linked h None l (left n)" "linked h None r (right n)"
    by auto
  note df = difference_linked[OF lk]
  consider (left_heavy) "ht l - ht r > 1" | (right_heavy) "ht l - ht r < - 1"
    | (even) "\<bar>ht l - ht r\<bar> \<le> 1"
    by linarith
  then show ?thesis
  proof cases
    case left_heavy
    with ht_nonneg[of r] have "0 < ht l" by linarith
    then obtain ll b w lr where l: "l = Fork ll b w lr" using ht_pos by blast
    have dl: "difference h (left n) = ret (ht ll - ht lr)"
      using n(4) unfolding l by (rule difference_linked)
    show ?thesis
    proof (cases "ht ll - ht lr > 0")
      case True
      from ll_rotation_linked[OF lk[unfolded l] ds[unfolded l]] obtain h' where
        "ll_rotation h p = ret (h', Some b)" "linked h' None (Fork ll b w (Fork lr a v r)) (Some b)"
        "length h' = length h" "\<forall>e. e \<noteq> a \<and> e \<noteq> b \<longrightarrow> h' ! e = h ! e"
        by blast
      with left_heavy True df dl n show ?thesis
        by (simp add: balance_def deref_cell l)
    next
      case False
      with left_heavy ht_nonneg[of r] ht_nonneg[of ll] have "0 < ht lr" by (simp add: l)
      then obtain lrl c x lrr where lr: "lr = Fork lrl c x lrr" using ht_pos by blast
      from lr_rotation_linked[OF lk[unfolded l lr] ds[unfolded l lr]] obtain h' where
        "lr_rotation h p = ret (h', Some c)"
        "linked h' None (Fork (Fork ll b w lrl) c x (Fork lrr a v r)) (Some c)"
        "length h' = length h" "\<forall>e. e \<noteq> a \<and> e \<noteq> b \<and> e \<noteq> c \<longrightarrow> h' ! e = h ! e"
        by blast
      with left_heavy False df dl n show ?thesis
        by (simp add: balance_def deref_cell l lr)
    qed
  next
    case right_heavy
    with ht_nonneg[of l] have "0 < ht r" by linarith
    then obtain rl b w rr where r: "r = Fork rl b w rr" using ht_pos by blast
    have dr: "difference h (right n) = ret (ht rl - ht rr)"
      using n(5) unfolding r by (rule difference_linked)
    show ?thesis
    proof (cases "ht rl - ht rr > 0")
      case True
      with ht_nonneg[of rr] have "0 < ht rl" by linarith
      then obtain rll c x rlr where rl: "rl = Fork rll c x rlr" using ht_pos by blast
      from rl_rotation_linked[OF lk[unfolded r rl] ds[unfolded r rl]] obtain h' where
        "rl_rotation h p = ret (h', Some c)"
        "linked h' None (Fork (Fork l a v rll) c x (Fork rlr b w rr)) (Some c)"
        "length h' = length h" "\<forall>e. e \<noteq> a \<and> e \<noteq> b \<and> e \<noteq> c \<longrightarrow> h' ! e = h ! e"
        by blast
      with right_heavy True df dr n show ?thesis
        by (simp add: balance_def deref_cell r rl)
    next
      case False
      from rr_rotation_linked[OF lk[unfolded r] ds[unfolded r]] obtain h' where
        "rr_rotation h p = ret (h', Some b)" "linked h' None (Fork (Fork l a v rl) b w rr) (Some b)"
        "length h' = length h" "\<forall>e. e \<noteq> a \<and> e \<noteq> b \<longrightarrow> h' ! e = h ! e"
        by blast
      with right_heavy False df dr n show ?thesis
        by (simp add: balance_def deref_cell r)
    qed
  next
    case even
    then have "balance_table (Fork l a v r) = Fork l a v r" by auto
    with balance_noop[OF lk even] lk n(1) show ?thesis by simp
  qed
qed

lemma balance_selects:
  assumes lk: "linked h None (Fork l a v r) p"
  shows "balance h p =
           (if ht l - ht r > 1 then (if bfactor l > 0 then ll_rotation h p else lr_rotation h p)
            else if ht l - ht r < - 1 then
              (if bfactor r > 0 then rl_rotation h p else rr_rotation h p)
            else ret (h, p))"
proof -
  from lk obtain n where n: "p = Some a" "a < length h" "h ! a = Some n"
    "linked h None l (left n)" "linked h None r (right n)"
    by auto
  note df = difference_linked[OF lk]
  consider (left_heavy) "ht l - ht r > 1" | (right_heavy) "ht l - ht r < - 1"
    | (even) "\<bar>ht l - ht r\<bar> \<le> 1"
    by linarith
  then show ?thesis
  proof cases
    case left_heavy
    with ht_nonneg[of r] have "0 < ht l" by linarith
    then obtain ll b w lr where l: "l = Fork ll b w lr" using ht_pos by blast
    have "difference h (left n) = ret (bfactor l)"
      using n(4) unfolding l bfactor.simps by (rule difference_linked)
    with left_heavy df n show ?thesis by (simp add: balance_def deref_cell)
  next
    case right_heavy
    with ht_nonneg[of l] have "0 < ht r" by linarith
    then obtain rl b w rr where r: "r = Fork rl b w rr" using ht_pos by blast
    have "difference h (right n) = ret (bfactor r)"
      using n(5) unfolding r bfactor.simps by (rule difference_linked)
    with right_heavy df n show ?thesis by (simp add: balance_def deref_cell)
  next
    case even
    with balance_noop[OF lk even] show ?thesis by auto
  qed
qed

section \<open>\<open>insert\<close> of a key that is present\<close>


section \<open>The result of the traversal loop\<close>

lemma ex_tree_at: "tree_at ex_cells ex_shape (Some 0)"
  by (simp add: tree_at_def ex_cells_def ex_shape_def)

lemma loop_result:
  assumes "tree_at h t p"
  shows "kSmallest_loop h k c ks p = ret (h, pick k c (keys t) ks)"
proof -
  from assms have "linked h None t p" "distinct (addrs t)" by (simp_all add: tree_at_def)
  then have "kSmallest_loop h k c ks p =
      kSmallest_loop h k (c + int (length (keys t))) (pick k c (keys t) ks) None"
    by (rule loop_traverse)
  also have "\<dots> = ret (h, pick k c (keys t) ks)"
    by (subst kSmallest_loop.simps) simp
  finally show ?thesis .
qed

lemma bst_sorted: "bst t \<Longrightarrow> sorted_wrt (<) (keys t)"
  by (induction t) (force simp: sorted_wrt_append list_all_iff)+

text \<open>
  What \<open>kSmallest\<close> computes when the counter is right: on a search tree laid out in the
  store without sharing, with \<open>elements\<close> equal to its number of nodes, the call throws
  \<open>InvalidArgument\<close> exactly for \<open>k\<close> outside \<open>[1, elements]\<close>, returns element
  \<open>k - 1\<close> of the strictly ascending in-order key sequence otherwise, and the calls for
  \<open>k = 1, \<dots>, elements\<close> return this sequence.  By \<open>inserts_keep_invariants\<close> below
  these are the states reached by inserts alone.
\<close>

lemma kSmallest_on_counted_trees:
  assumes "tree_at (cells s) t p" and "bst t" and "elements s = int (length (keys t))"
  shows "sorted_wrt (<) (keys t) \<and>
         kSmallest s p k =
           (if k < 1 \<or> k > elements s then fail InvalidArgument
            else ret (s, keys t ! nat (k - 1))) \<and>
         map (\<lambda>i. kSmallest s p (int i)) [1..<Suc (length (keys t))] =
           map (\<lambda>x. ret (s, x)) (keys t)"
proof -
  have eq: "kSmallest s p k =
           (if k < 1 \<or> k > elements s then fail InvalidArgument
            else ret (s, keys t ! nat (k - 1)))" for k
    using assms(3) by (simp add: kSmallest_def loop_result[OF assms(1)] pick_def)
  have "map (\<lambda>i. kSmallest s p (int i)) [1..<Suc (length (keys t))] =
           map (\<lambda>x. ret (s, x)) (keys t)"
    by (rule nth_equalityI) (simp_all add: eq assms(3) nth_upt del: upt_Suc)
  with eq bst_sorted[OF assms(2)] show ?thesis by simp
qed

lemma kSmallest_on_example:
  "tree_at (cells ex_state) ex_shape (Some 0) \<and> bst ex_shape \<and>
   elements ex_state = int (length (keys ex_shape)) \<and>
   kSmallest ex_state (Some 0) 0 = fail InvalidArgument \<and>
   kSmallest ex_state (Some 0) 1 = ret (ex_state, 1) \<and>
   kSmallest ex_state (Some 0) 2 = ret (ex_state, 2) \<and>
   kSmallest ex_state (Some 0) 3 = ret (ex_state, 3) \<and>
   kSmallest ex_state (Some 0) 4 = fail InvalidArgument"
proof -
  have t: "tree_at (cells ex_state) ex_shape (Some 0)"
    using ex_tree_at by (simp add: ex_state_def)
  have b: "bst ex_shape" by (simp add: ex_shape_def)
  have e: "elements ex_state = int (length (keys ex_shape))"
    by (simp add: ex_state_def ex_shape_def)
  have n: "elements ex_state = 3" "keys ex_shape = [1, 2, 3]"
    by (simp_all add: ex_state_def ex_shape_def)
  from kSmallest_on_counted_trees[OF t b e, of 2] kSmallest_on_counted_trees[OF t b e, of 0] kSmallest_on_counted_trees[OF t b e, of 4]
    t b e show ?thesis
    by (simp add: n)
qed

section \<open>Counting and searching in a search tree\<close>

text \<open>
  On a search tree laid out in the store, \<open>numNodesSmallerThan\<close> and
  \<open>numNodesGreaterThan\<close> count the keys below and above \<open>x\<close>, and \<open>search\<close> finds
  \<open>x\<close> exactly when it is a key; so the counting identity holds in every state whose
  \<open>elements\<close> is the number of nodes.
\<close>

lemma numNodes_linked: "linked h None t p \<Longrightarrow> numNodes h p = ret (int (length (keys t)))"
proof (induction t arbitrary: p)
  case Tip
  then show ?case by (simp add: numNodes.simps)
next
  case (Fork l a v r)
  from Fork.prems obtain n where n: "p = Some a" "a < length h" "h ! a = Some n"
    "linked h None l (left n)" "linked h None r (right n)"
    by auto
  show ?case
    by (subst numNodes.simps) (simp add: n deref_cell Fork.IH(1)[OF n(4)] Fork.IH(2)[OF n(5)])
qed

lemma filter_all: "\<forall>k \<in> set xs. P k \<Longrightarrow> filter P xs = xs"
  by (induction xs) auto

lemma filter_none: "\<forall>k \<in> set xs. \<not> P k \<Longrightarrow> filter P xs = []"
  by (induction xs) auto

lemma smaller_linked:
  "linked h None t p \<Longrightarrow> bst t \<Longrightarrow>
     numNodesSmallerThan h p x = ret (int (length (filter (\<lambda>k. k < x) (keys t))))"
proof (induction t arbitrary: p)
  case Tip
  then show ?case by (simp add: numNodesSmallerThan.simps)
next
  case (Fork l a v r)
  from Fork.prems(1) obtain n where n: "p = Some a" "a < length h" "h ! a = Some n" "val n = v"
    "linked h None l (left n)" "linked h None r (right n)"
    by auto
  from Fork.prems(2) have b: "bst l" "bst r" "\<forall>k \<in> set (keys l). k < v" "\<forall>k \<in> set (keys r). v < k"
    by (simp_all add: list_all_iff)
  consider (eq) "v = x" | (lt) "v < x" | (gt) "x < v" by linarith
  then show ?case
  proof cases
    case eq
    with b have "filter (\<lambda>k. k < x) (keys l) = keys l" "filter (\<lambda>k. k < x) (keys r) = []"
      by (auto intro!: filter_all filter_none)
    with eq n show ?thesis
      by (subst numNodesSmallerThan.simps) (simp add: deref_cell numNodes_linked[OF n(5)])
  next
    case lt
    with b have "filter (\<lambda>k. k < x) (keys l) = keys l"
      by (auto intro!: filter_all)
    with lt n show ?thesis
      by (subst numNodesSmallerThan.simps)
        (simp add: deref_cell numNodes_linked[OF n(5)] Fork.IH(2)[OF n(6) b(2)])
  next
    case gt
    with b have "filter (\<lambda>k. k < x) (keys r) = []"
      by (auto intro!: filter_none)
    with gt n show ?thesis
      by (subst numNodesSmallerThan.simps) (simp add: deref_cell Fork.IH(1)[OF n(5) b(1)])
  qed
qed

lemma greater_linked:
  "linked h None t p \<Longrightarrow> bst t \<Longrightarrow>
     numNodesGreaterThan h p x = ret (int (length (filter (\<lambda>k. x < k) (keys t))))"
proof (induction t arbitrary: p)
  case Tip
  then show ?case by (simp add: numNodesGreaterThan.simps)
next
  case (Fork l a v r)
  from Fork.prems(1) obtain n where n: "p = Some a" "a < length h" "h ! a = Some n" "val n = v"
    "linked h None l (left n)" "linked h None r (right n)"
    by auto
  from Fork.prems(2) have b: "bst l" "bst r" "\<forall>k \<in> set (keys l). k < v" "\<forall>k \<in> set (keys r). v < k"
    by (simp_all add: list_all_iff)
  consider (eq) "v = x" | (gt) "x < v" | (lt) "v < x" by linarith
  then show ?case
  proof cases
    case eq
    with b have "filter (\<lambda>k. x < k) (keys r) = keys r" "filter (\<lambda>k. x < k) (keys l) = []"
      by (auto intro!: filter_all filter_none)
    with eq n show ?thesis
      by (subst numNodesGreaterThan.simps) (simp add: deref_cell numNodes_linked[OF n(6)])
  next
    case gt
    with b have "filter (\<lambda>k. x < k) (keys r) = keys r"
      by (auto intro!: filter_all)
    with gt n show ?thesis
      by (subst numNodesGreaterThan.simps)
        (simp add: deref_cell numNodes_linked[OF n(6)] Fork.IH(1)[OF n(5) b(1)])
  next
    case lt
    with b have "filter (\<lambda>k. x < k) (keys l) = []"
      by (auto intro!: filter_none)
    with lt n show ?thesis
      by (subst numNodesGreaterThan.simps) (simp add: deref_cell Fork.IH(2)[OF n(6) b(2)])
  qed
qed

lemma search_linked:
  "linked h None t p \<Longrightarrow> bst t \<Longrightarrow>
     \<exists>q. search h p x = ret q \<and> (q \<noteq> None \<longleftrightarrow> x \<in> set (keys t))"
proof (induction t arbitrary: p)
  case Tip
  then show ?case by (simp add: search.simps)
next
  case (Fork l a v r)
  from Fork.prems(1) obtain n where n: "p = Some a" "a < length h" "h ! a = Some n" "val n = v"
    "linked h None l (left n)" "linked h None r (right n)"
    by auto
  from Fork.prems(2) have b: "bst l" "bst r" "\<forall>k \<in> set (keys l). k < v" "\<forall>k \<in> set (keys r). v < k"
    by (simp_all add: list_all_iff)
  consider (eq) "v = x" | (gt) "x < v" | (lt) "v < x" by linarith
  then show ?case
  proof cases
    case eq
    with n show ?thesis by (subst search.simps) (simp add: deref_cell)
  next
    case gt
    from Fork.IH(1)[OF n(5) b(1)] obtain q where
      "search h (left n) x = ret q" "q \<noteq> None \<longleftrightarrow> x \<in> set (keys l)" by blast
    with gt n b show ?thesis by (subst search.simps) (auto simp: deref_cell)
  next
    case lt
    from Fork.IH(2)[OF n(6) b(2)] obtain q where
      "search h (right n) x = ret q" "q \<noteq> None \<longleftrightarrow> x \<in> set (keys r)" by blast
    with lt n b show ?thesis by (subst search.simps) (auto simp: deref_cell)
  qed
qed

lemma split_count:
  "distinct xs \<Longrightarrow>
     int (length xs) =
       int (length (filter (\<lambda>k. k < x) xs)) + int (length (filter (\<lambda>k. x < k) xs)) +
       (if (x::int) \<in> set xs then 1 else 0)"
  by (induction xs) auto

lemma count_identity_on_search_trees:
  assumes "tree_at (cells s) t (root s)" and "bst t" and "elements s = int (length (keys t))"
  shows "\<exists>smaller greater found.
           numNodesSmallerThan (cells s) (root s) x = ret smaller \<and>
           numNodesGreaterThan (cells s) (root s) x = ret greater \<and>
           search (cells s) (root s) x = ret found \<and>
           getNumElements s = smaller + greater + (if found \<noteq> None then 1 else 0)"
proof -
  from assms(1) have lk: "linked (cells s) None t (root s)" by (simp add: tree_at_def)
  from bst_sorted[OF assms(2)] have "distinct (keys t)"
    by (simp add: strict_sorted_iff)
  from split_count[OF this, of x] search_linked[OF lk assms(2), of x]
    smaller_linked[OF lk assms(2), of x] greater_linked[OF lk assms(2), of x] assms(3)
  show ?thesis by (auto simp: getNumElements_def)
qed

section \<open>\<open>insert\<close> keeps the invariants\<close>

text \<open>
  Starting from the constructor state, any sequence of inserts returns and leaves a state
  that satisfies the invariants of the data model and holds exactly the inserted keys; each
  insert of a new key increments \<open>elements\<close> by one.  (The second proof shows that a
  subtree which grew by an insertion is never left with factor 0, so the table picks the
  right rotation.)
\<close>

lemma addrs_ins:
  "set (addrs (ins a0 v t)) \<subseteq> insert a0 (set (addrs t))"
  by (induction t) (auto simp: addrs_balance_table simp del: balance_table.simps)

lemma distinct_addrs_ins:
  "distinct (addrs t) \<Longrightarrow> a0 \<notin> set (addrs t) \<Longrightarrow> distinct (addrs (ins a0 v t))"
proof (induction t)
  case Tip
  then show ?case by simp
next
  case (Fork l a w r)
  from addrs_ins[of a0 v l] addrs_ins[of a0 v r] Fork show ?case
    by (auto simp: addrs_balance_table simp del: balance_table.simps)
qed

lemma set_keys_ins: "set (keys (ins a0 v t)) = insert v (set (keys t))"
  by (induction t) (auto simp: keys_balance_table simp del: balance_table.simps)

lemma bst_iff_sorted: "bst t \<longleftrightarrow> sorted_wrt (<) (keys t)"
proof (induction t)
  case Tip
  then show ?case by simp
next
  case (Fork l a v r)
  then show ?case
    by (auto simp: sorted_wrt_append list_all_iff intro: order.strict_trans)
qed

lemma bst_balance_table: "bst (balance_table t) = bst t"
  by (simp only: bst_iff_sorted keys_balance_table)

lemma bst_ins: "bst t \<Longrightarrow> bst (ins a0 v t)"
proof (induction t)
  case Tip
  then show ?case by simp
next
  case (Fork l a w r)
  then show ?case
    by (auto simp: bst_balance_table set_keys_ins list_all_iff simp del: balance_table.simps)
qed

lemma length_keys_ins:
  "bst t \<Longrightarrow>
     length (keys (ins a0 v t)) = (if v \<in> set (keys t) then length (keys t) else Suc (length (keys t)))"
proof (induction t)
  case Tip
  then show ?case by simp
next
  case (Fork l a w r)
  then show ?case
    by (auto simp: keys_balance_table list_all_iff simp del: balance_table.simps)
qed

lemma linked_bound: "linked h nxt t p \<Longrightarrow> \<forall>a \<in> set (addrs t). a < length h"
  by (induction t arbitrary: p nxt) auto

lemma balance_table_even:
  "\<bar>ht l - ht r\<bar> \<le> 1 \<Longrightarrow> balance_table (Fork l a v r) = Fork l a v r"
  by auto

lemma balance_table_left:
  assumes "avl l" "avl r" "ht l = ht r + 2" "bfactor l \<noteq> 0"
  shows "avl (balance_table (Fork l a v r)) \<and> ht (balance_table (Fork l a v r)) = ht r + 2"
proof -
  from assms(3) ht_nonneg[of r] have "0 < ht l" by linarith
  then obtain ll b w lr where l: "l = Fork ll b w lr" using ht_pos by blast
  show ?thesis
  proof (cases "ht ll > ht lr")
    case True
    with assms l show ?thesis by (auto simp: max_def split: if_splits)
  next
    case False
    with assms(4) l have lt: "ht ll < ht lr" by simp
    with ht_nonneg[of ll] have "0 < ht lr" by linarith
    then obtain lrl c x lrr where lr: "lr = Fork lrl c x lrr" using ht_pos by blast
    from assms lt show ?thesis unfolding l lr by (auto simp: max_def split: if_splits)
  qed
qed

lemma balance_table_right:
  assumes "avl l" "avl r" "ht r = ht l + 2" "bfactor r \<noteq> 0"
  shows "avl (balance_table (Fork l a v r)) \<and> ht (balance_table (Fork l a v r)) = ht l + 2"
proof -
  from assms(3) ht_nonneg[of l] have "0 < ht r" by linarith
  then obtain rl b w rr where r: "r = Fork rl b w rr" using ht_pos by blast
  show ?thesis
  proof (cases "ht rl > ht rr")
    case True
    with ht_nonneg[of rr] have "0 < ht rl" by linarith
    then obtain rll c x rlr where rl: "rl = Fork rll c x rlr" using ht_pos by blast
    from assms True show ?thesis unfolding r rl by (auto simp: max_def split: if_splits)
  next
    case False
    with assms(4) r have lt: "ht rl < ht rr" by simp
    with assms r show ?thesis by (auto simp: max_def split: if_splits)
  qed
qed

lemma avl_ins:
  "avl t \<Longrightarrow>
     avl (ins a0 v t) \<and>
     (ht (ins a0 v t) = ht t \<or>
      ht (ins a0 v t) = ht t + 1 \<and> (t = Tip \<or> bfactor (ins a0 v t) \<noteq> 0))"
proof (induction t)
  case Tip
  then show ?case by simp
next
  case (Fork l a w r)
  from Fork.prems have av: "avl l" "avl r" "\<bar>ht l - ht r\<bar> \<le> 1" by simp_all
  consider (lt) "v < w" | (gt) "w < v" | (eq) "v = w" by linarith
  then show ?case
  proof cases
    case lt
    let ?l = "ins a0 v l"
    from Fork.IH(1)[OF av(1)] have ih: "avl ?l"
      "ht ?l = ht l \<or> ht ?l = ht l + 1 \<and> (l = Tip \<or> bfactor ?l \<noteq> 0)"
      by simp_all
    have i: "ins a0 v (Fork l a w r) = balance_table (Fork ?l a w r)" using lt by simp
    show ?thesis
    proof (cases "\<bar>ht ?l - ht r\<bar> \<le> 1")
      case True
      then have "balance_table (Fork ?l a w r) = Fork ?l a w r" by (rule balance_table_even)
      with i ih av True show ?thesis by (auto simp: max_def)
    next
      case False
      with ih(2) av(3) have h: "ht ?l = ht r + 2" "ht l = ht r + 1" by linarith+
      with ht_nonneg[of r] have "l \<noteq> Tip" by auto
      with ih(2) h have "bfactor ?l \<noteq> 0" by auto
      from balance_table_left[OF ih(1) av(2) h(1) this, of a w] i h show ?thesis
        by (simp add: max_def del: balance_table.simps ins.simps)
    qed
  next
    case gt
    let ?r = "ins a0 v r"
    from Fork.IH(2)[OF av(2)] have ih: "avl ?r"
      "ht ?r = ht r \<or> ht ?r = ht r + 1 \<and> (r = Tip \<or> bfactor ?r \<noteq> 0)"
      by simp_all
    have i: "ins a0 v (Fork l a w r) = balance_table (Fork l a w ?r)" using gt by simp
    show ?thesis
    proof (cases "\<bar>ht l - ht ?r\<bar> \<le> 1")
      case True
      then have "balance_table (Fork l a w ?r) = Fork l a w ?r" by (rule balance_table_even)
      with i ih av True show ?thesis by (auto simp: max_def)
    next
      case False
      with ih(2) av(3) have h: "ht ?r = ht l + 2" "ht r = ht l + 1" by linarith+
      with ht_nonneg[of l] have "r \<noteq> Tip" by auto
      with ih(2) h have "bfactor ?r \<noteq> 0" by auto
      from balance_table_right[OF av(1) ih(1) h(1) this, of a w] i h show ?thesis
        by (simp add: max_def del: balance_table.simps ins.simps)
    qed
  next
    case eq
    with Fork.prems show ?thesis by simp
  qed
qed

lemma entry_ins_left:
  "v < w \<Longrightarrow> ins a0 v (Fork l a w r) = balance_table (Fork (ins a0 v l) a w r)"
  by simp

lemma entry_ins_right:
  "w < v \<Longrightarrow> ins a0 v (Fork l a w r) = balance_table (Fork l a w (ins a0 v r))"
  by simp

lemma insert_refines:
  assumes "linked (cells s) None t p" and "distinct (addrs t)"
  shows "\<exists>s'. insert_avl s p v = ret (s', entry (ins (length (cells s)) v t)) \<and>
           linked (cells s') None (ins (length (cells s)) v t)
             (entry (ins (length (cells s)) v t)) \<and>
           length (cells s) \<le> length (cells s') \<and>
           (\<forall>e < length (cells s). e \<notin> set (addrs t) \<longrightarrow> cells s' ! e = cells s ! e) \<and>
           root s' = root s \<and>
           elements s' + int (length (keys t)) =
             elements s + int (length (keys (ins (length (cells s)) v t)))"
  using assms
proof (induction t arbitrary: p)
  case Tip
  let ?s' = "s\<lparr>cells := cells s @ [Some \<lparr>val = v, left = None, right = None\<rparr>],
                elements := elements s + 1\<rparr>"
  from Tip have "insert_avl s p v = ret (?s', Some (length (cells s)))"
    by (subst insert_avl.simps) simp
  then show ?case by (auto simp: nth_append)
next
  case (Fork l a w r)
  let ?a0 = "length (cells s)"
  from Fork.prems(1) obtain n where n: "p = Some a" "a < ?a0" "cells s ! a = Some n" "val n = w"
    "linked (cells s) None l (left n)" "linked (cells s) None r (right n)"
    by auto
  from Fork.prems(2) have d: "distinct (addrs l)" "distinct (addrs r)" "a \<notin> set (addrs l)"
    "a \<notin> set (addrs r)" "set (addrs l) \<inter> set (addrs r) = {}"
    by auto
  note bl = linked_bound[OF n(5)] and br = linked_bound[OF n(6)]
  consider (lt) "v < w" | (gt) "w < v" | (eq) "v = w" by linarith
  then show ?case
  proof cases
    case lt
    let ?l = "ins ?a0 v l"
    from Fork.IH(1)[OF n(5) d(1)] obtain s1 where s1:
      "insert_avl s (left n) v = ret (s1, entry ?l)"
      "linked (cells s1) None ?l (entry ?l)"
      "?a0 \<le> length (cells s1)"
      "\<forall>e < ?a0. e \<notin> set (addrs l) \<longrightarrow> cells s1 ! e = cells s ! e"
      "root s1 = root s"
      "elements s1 + int (length (keys l)) = elements s + int (length (keys ?l))"
      by blast
    have al: "a \<notin> set (addrs ?l)" using addrs_ins[of ?a0 v l] d(3) n(2) by auto
    have dl: "distinct (addrs ?l)" using distinct_addrs_ins[OF d(1)] bl by auto
    have lr: "set (addrs ?l) \<inter> set (addrs r) = {}"
      using addrs_ins[of ?a0 v l] d(5) br by auto
    have a1: "a < length (cells s1)" "cells s1 ! a = Some n" using s1(3,4) n(2,3) d(3) by auto
    let ?h2 = "(cells s1)[a := Some (n\<lparr>left := entry ?l\<rparr>)]"
    have r1: "linked (cells s1) None r (right n)"
      using n(6) s1(3) by (rule linked_cong) (use s1(4) br d(5) in auto)
    have l2: "linked ?h2 None (Fork ?l a w r) (Some a)"
      using linked_update[OF s1(2) al] linked_update[OF r1 d(4)] a1 n(4) by simp
    have d2: "distinct (addrs (Fork ?l a w r))" using dl d(2,4) al lr by auto
    from balance_refines[OF l2 d2] obtain h3 where h3:
      "balance ?h2 (Some a) = ret (h3, entry (balance_table (Fork ?l a w r)))"
      "linked h3 None (balance_table (Fork ?l a w r)) (entry (balance_table (Fork ?l a w r)))"
      "length h3 = length ?h2"
      "\<forall>e. e \<notin> set (addrs (Fork ?l a w r)) \<longrightarrow> h3 ! e = ?h2 ! e"
      by blast
    have run: "insert_avl s p v = ret (s1\<lparr>cells := h3\<rparr>, entry (balance_table (Fork ?l a w r)))"
      using lt n a1 s1(1) h3(1)
      by (subst insert_avl.simps) (simp add: deref_cell update_cell)
    have frame: "\<forall>e < ?a0. e \<notin> set (addrs (Fork l a w r)) \<longrightarrow> h3 ! e = cells s ! e"
    proof (intro allI impI)
      fix e assume e: "e < ?a0" "e \<notin> set (addrs (Fork l a w r))"
      with addrs_ins[of ?a0 v l] have "e \<notin> set (addrs (Fork ?l a w r))" by auto
      with h3(4) have "h3 ! e = ?h2 ! e" by blast
      also have "\<dots> = cells s1 ! e" using e by simp
      also have "\<dots> = cells s ! e" using s1(4) e by simp
      finally show "h3 ! e = cells s ! e" .
    qed
    have cnt: "elements s1 + int (length (keys (Fork l a w r))) =
        elements s + int (length (keys (balance_table (Fork ?l a w r))))"
      using s1(6) by (simp add: keys_balance_table del: balance_table.simps)
    from run h3(2,3) s1(3,5) frame cnt show ?thesis
      unfolding entry_ins_left[OF lt] by (intro exI[of _ "s1\<lparr>cells := h3\<rparr>"]) simp
  next
    case gt
    let ?r = "ins ?a0 v r"
    from Fork.IH(2)[OF n(6) d(2)] obtain s1 where s1:
      "insert_avl s (right n) v = ret (s1, entry ?r)"
      "linked (cells s1) None ?r (entry ?r)"
      "?a0 \<le> length (cells s1)"
      "\<forall>e < ?a0. e \<notin> set (addrs r) \<longrightarrow> cells s1 ! e = cells s ! e"
      "root s1 = root s"
      "elements s1 + int (length (keys r)) = elements s + int (length (keys ?r))"
      by blast
    have ar: "a \<notin> set (addrs ?r)" using addrs_ins[of ?a0 v r] d(4) n(2) by auto
    have dr: "distinct (addrs ?r)" using distinct_addrs_ins[OF d(2)] br by auto
    have lr: "set (addrs l) \<inter> set (addrs ?r) = {}"
      using addrs_ins[of ?a0 v r] d(5) bl by auto
    have a1: "a < length (cells s1)" "cells s1 ! a = Some n" using s1(3,4) n(2,3) d(4) by auto
    let ?h2 = "(cells s1)[a := Some (n\<lparr>right := entry ?r\<rparr>)]"
    have l1: "linked (cells s1) None l (left n)"
      using n(5) s1(3) by (rule linked_cong) (use s1(4) bl d(5) in auto)
    have l2: "linked ?h2 None (Fork l a w ?r) (Some a)"
      using linked_update[OF s1(2) ar] linked_update[OF l1 d(3)] a1 n(4) by simp
    have d2: "distinct (addrs (Fork l a w ?r))" using dr d(1,3) ar lr by auto
    from balance_refines[OF l2 d2] obtain h3 where h3:
      "balance ?h2 (Some a) = ret (h3, entry (balance_table (Fork l a w ?r)))"
      "linked h3 None (balance_table (Fork l a w ?r)) (entry (balance_table (Fork l a w ?r)))"
      "length h3 = length ?h2"
      "\<forall>e. e \<notin> set (addrs (Fork l a w ?r)) \<longrightarrow> h3 ! e = ?h2 ! e"
      by blast
    have run: "insert_avl s p v = ret (s1\<lparr>cells := h3\<rparr>, entry (balance_table (Fork l a w ?r)))"
      using gt n a1 s1(1) h3(1)
      by (subst insert_avl.simps) (simp add: deref_cell update_cell)
    have frame: "\<forall>e < ?a0. e \<notin> set (addrs (Fork l a w r)) \<longrightarrow> h3 ! e = cells s ! e"
    proof (intro allI impI)
      fix e assume e: "e < ?a0" "e \<notin> set (addrs (Fork l a w r))"
      with addrs_ins[of ?a0 v r] have "e \<notin> set (addrs (Fork l a w ?r))" by auto
      with h3(4) have "h3 ! e = ?h2 ! e" by blast
      also have "\<dots> = cells s1 ! e" using e by simp
      also have "\<dots> = cells s ! e" using s1(4) e by simp
      finally show "h3 ! e = cells s ! e" .
    qed
    have cnt: "elements s1 + int (length (keys (Fork l a w r))) =
        elements s + int (length (keys (balance_table (Fork l a w ?r))))"
      using s1(6) by (simp add: keys_balance_table del: balance_table.simps)
    from run h3(2,3) s1(3,5) frame cnt show ?thesis
      unfolding entry_ins_right[OF gt] by (intro exI[of _ "s1\<lparr>cells := h3\<rparr>"]) simp
  next
    case eq
    with n have "insert_avl s p v = ret (s, p)"
      by (subst insert_avl.simps) (simp add: deref_cell)
    with eq Fork.prems(1) n(1) show ?thesis by (intro exI[of _ s]) simp
  qed
qed

lemma insert_op_invariant:
  assumes "invariant s t"
  shows "\<exists>s'. insert_op s v = ret s' \<and> invariant s' (ins (length (cells s)) v t) \<and>
           elements s' = elements s + (if v \<in> set (keys t) then 0 else 1)"
proof -
  let ?t = "ins (length (cells s)) v t"
  from assms have lk: "linked (cells s) None t (root s)" and ds: "distinct (addrs t)"
    and b: "bst t" and av: "avl t" and el: "elements s = int (length (keys t))"
    by (simp_all add: invariant_def tree_at_def)
  from insert_refines[OF lk ds, of v] obtain s1 where s1:
    "insert_avl s (root s) v = ret (s1, entry ?t)"
    "linked (cells s1) None ?t (entry ?t)"
    "elements s1 + int (length (keys t)) = elements s + int (length (keys ?t))"
    by blast
  let ?s' = "s1\<lparr>root := entry ?t\<rparr>"
  have run: "insert_op s v = ret ?s'" using s1(1) by (simp add: insert_op_def)
  have "length (cells s) \<notin> set (addrs t)" using linked_bound[OF lk] by auto
  then have "distinct (addrs ?t)" by (rule distinct_addrs_ins[OF ds])
  moreover have "bst ?t" using b by (rule bst_ins)
  moreover have "avl ?t" using avl_ins[OF av] by blast
  moreover have e: "elements s1 = int (length (keys ?t))" using s1(3) el by simp
  ultimately have "invariant ?s' ?t" using s1(2) by (simp add: invariant_def tree_at_def)
  moreover have "elements ?s' = elements s + (if v \<in> set (keys t) then 0 else 1)"
    using e el length_keys_ins[OF b, of "length (cells s)" v] by simp
  ultimately show ?thesis using run by blast
qed

lemma run_inserts_invariant:
  "invariant s t \<Longrightarrow>
     \<exists>s' t'. run s (map Insert vs) = ret s' \<and> invariant s' t' \<and>
       set (keys t') = set (keys t) \<union> set vs"
proof (induction vs arbitrary: s t)
  case Nil
  then show ?case by auto
next
  case (Cons v vs)
  from insert_op_invariant[OF Cons.prems, of v] obtain s1 where s1:
    "insert_op s v = ret s1" "invariant s1 (ins (length (cells s)) v t)"
    by blast
  from Cons.IH[OF s1(2)] obtain s' t' where
    "run s1 (map Insert vs) = ret s'" "invariant s' t'"
    "set (keys t') = set (keys (ins (length (cells s)) v t)) \<union> set vs"
    by blast
  with s1(1) show ?case by (auto simp: set_keys_ins)
qed

lemma inserts_keep_invariants:
  "\<exists>s t. run avl_tree (map Insert vs) = ret s \<and> invariant s t \<and> set (keys t) = set vs"
proof -
  have "invariant avl_tree Tip" by (simp add: invariant_def tree_at_def avl_tree_def)
  from run_inserts_invariant[OF this, of vs] show ?thesis by simp
qed

section \<open>Evaluating the routines on concrete stores\<close>

lemmas run_simps = insert_op_def delete_op_def avl_tree_def insert_avl.simps deleteNode.simps
  balance_def difference_def height.simps deref_def update_def free_def minValueNode.simps
  rr_rotation_def ll_rotation_def lr_rotation_def rl_rotation_def

lemma run_inserts_2_1_3: "run avl_tree [Insert 2, Insert 1, Insert 3] = ret ex_state"
  by (simp add: run_simps ex_state_def ex_cells_def)

text \<open>
  The scenarios of section 8 of the specification.  A to C are the three rotation cases of
  \<open>insert\<close> (and the mirror image of C); D is \<open>kSmallest\<close> on seven keys, for
  \<open>k = 0, 4, 8\<close>, with the state compared before and after; E deletes a node with two
  children and runs into the released successor.
\<close>

lemma scenario_A:
  "run avl_tree [Insert 10, Insert 20, Insert 30] =
     ret \<lparr>cells =
            [Some \<lparr>val = 10, left = None, right = None\<rparr>,
             Some \<lparr>val = 20, left = Some 0, right = Some 2\<rparr>,
             Some \<lparr>val = 30, left = None, right = None\<rparr>],
          root = Some 1, elements = 3\<rparr>"
  by (simp add: run_simps)

lemma scenario_B:
  "run avl_tree [Insert 30, Insert 20, Insert 10] =
     ret \<lparr>cells =
            [Some \<lparr>val = 30, left = None, right = None\<rparr>,
             Some \<lparr>val = 20, left = Some 2, right = Some 0\<rparr>,
             Some \<lparr>val = 10, left = None, right = None\<rparr>],
          root = Some 1, elements = 3\<rparr>"
  by (simp add: run_simps)

lemma scenario_C:
  "run avl_tree [Insert 30, Insert 10, Insert 20] =
     ret \<lparr>cells =
            [Some \<lparr>val = 30, left = None, right = None\<rparr>,
             Some \<lparr>val = 10, left = None, right = None\<rparr>,
             Some \<lparr>val = 20, left = Some 1, right = Some 0\<rparr>],
          root = Some 2, elements = 3\<rparr>"
  by (simp add: run_simps)

lemma scenario_C_mirror:
  "run avl_tree [Insert 10, Insert 30, Insert 20] =
     ret \<lparr>cells =
            [Some \<lparr>val = 10, left = None, right = None\<rparr>,
             Some \<lparr>val = 30, left = None, right = None\<rparr>,
             Some \<lparr>val = 20, left = Some 0, right = Some 1\<rparr>],
          root = Some 2, elements = 3\<rparr>"
  by (simp add: run_simps)

lemma scenario_D:
  "bind (run avl_tree [Insert 5, Insert 3, Insert 8, Insert 1, Insert 4, Insert 7, Insert 9])
     (\<lambda>s. ret (map (\<lambda>k. bind (kSmallest s (root s) k) (\<lambda>(s', x). ret (s' = s, x)))
                  [0, 4, 8])) =
   ret [fail InvalidArgument, ret (True, 5), fail InvalidArgument]"
  by (simp add: run_simps kSmallest_def kSmallest_loop.simps kSmallest_pre.simps INT_MIN_def)

lemma scenario_E:
  "run avl_tree [Insert 5, Insert 3, Insert 8, Delete 5] = fail DanglingPointer"
  by (simp add: run_simps)

section \<open>The claims\<close>

text \<open>
  C1.  After every insert and delete, starting from the empty tree, every node satisfies the
  search-tree order and the AVL balance condition.  The code does not keep this: inserting
  3, 2, 4, 1 gives the tree with 3 at the top, 2 and 4 below it and 1 below 2; deleting the
  leaf 1 then stores the root's right child (the node with key 4) into the left pointer of
  the node with key 2, because \<open>deleteNode\<close> reads \<open>root->right\<close> where it should read
  \<open>rootNode->right\<close>.  The in-order walk of the result prints 4 2 3 4: key 4 lies in the
  left subtree of 2 and of 3.
\<close>

theorem delete_breaks_search_order:
  "run avl_tree [Insert 3, Insert 2, Insert 4, Insert 1, Delete 1] =
     ret \<lparr>cells =
            [Some \<lparr>val = 3, left = Some 1, right = Some 2\<rparr>,
             Some \<lparr>val = 2, left = Some 2, right = None\<rparr>,
             Some \<lparr>val = 4, left = None, right = None\<rparr>,
             None],
          root = Some 0, elements = 4\<rparr> \<and>
   bind (run avl_tree [Insert 3, Insert 2, Insert 4, Insert 1, Delete 1])
     (\<lambda>s. inorder (cells s) (root s)) = ret [4, 2, 3, 4]"
  by (simp add: run_simps inorder.simps)

text \<open>
  C2.  Deleting a value that is absent is a no-op.  On the empty tree the code does return
  the tree unchanged, but on a non-empty tree the descent runs past a leaf: the early exit
  tests the shared \<open>root\<close>, not the argument, and \<open>rootNode->value\<close> dereferences the null
  pointer.
\<close>

theorem delete_absent_dereferences_null:
  "run avl_tree [Insert 1, Delete 2] = fail NullPointer \<and>
   run avl_tree [Delete 2] = ret avl_tree"
  by (simp add: run_simps)

text \<open>
  C3.  Deleting a node with no child makes the parent's pointer absent, deleting a node with
  one child promotes that child.  The code returns a child of the shared \<open>root\<close> instead
  of a child of the matching node.  After inserting 2, 1, 3, deleting the leaf 1 leaves the
  top node with both pointers on the node with key 3.  After inserting 3, 2, 4, 1, deleting
  2 (whose only child is 1) stores the released node itself back into its parent, and the
  following \<open>balance\<close> reads the released cell.
\<close>

theorem delete_splices_child_of_root:
  "run avl_tree [Insert 2, Insert 1, Insert 3, Delete 1] =
     ret \<lparr>cells =
            [Some \<lparr>val = 2, left = Some 2, right = Some 2\<rparr>,
             None,
             Some \<lparr>val = 3, left = None, right = None\<rparr>],
          root = Some 0, elements = 3\<rparr> \<and>
   run avl_tree [Insert 3, Insert 2, Insert 4, Insert 1, Delete 2] = fail DanglingPointer"
  by (simp add: run_simps)

text \<open>
  C4.  \<open>elements\<close> is the number of nodes reachable from the root.  The code decrements
  it on the two-children path only: after inserting 1 and deleting it again the tree is empty
  (\<open>numNodes\<close> is 0) and \<open>elements\<close> is still 1.
\<close>

theorem delete_leaf_keeps_elements:
  "run avl_tree [Insert 1, Delete 1] = ret \<lparr>cells = [None], root = None, elements = 1\<rparr> \<and>
   bind (run avl_tree [Insert 1, Delete 1])
     (\<lambda>s. bind (numNodes (cells s) (root s)) (\<lambda>n. ret (n, getNumElements s))) = ret (0, 1)"
  by (simp add: run_simps numNodes.simps getNumElements_def)

text \<open>
  C5.  For a non-empty node, \<open>height\<close> and \<open>difference\<close> compute the height (0 for an
  absent subtree, 1 for a leaf) and the balance factor of the tree the store holds;
  \<open>balance\<close> calls the rotation routine that the decision table names, and returns the
  store and the pointer unchanged when the factor is in \<open>[-1, 1]\<close>; the store it returns
  holds the tree that the table of the specification prescribes.
\<close>

theorem balance_decision_table:
  assumes "tree_at h (Fork l a v r) p"
  shows "height h p = ret (ht (Fork l a v r)) \<and>
         difference h p = ret (ht l - ht r) \<and>
         balance h p =
           (if ht l - ht r > 1 then (if bfactor l > 0 then ll_rotation h p else lr_rotation h p)
            else if ht l - ht r < - 1 then
              (if bfactor r > 0 then rl_rotation h p else rr_rotation h p)
            else ret (h, p)) \<and>
         (\<exists>h'. balance h p = ret (h', entry (balance_table (Fork l a v r))) \<and>
               tree_at h' (balance_table (Fork l a v r)) (entry (balance_table (Fork l a v r))))"
proof -
  from assms have lk: "linked h None (Fork l a v r) p" and ds: "distinct (addrs (Fork l a v r))"
    by (simp_all add: tree_at_def)
  have "distinct (addrs (balance_table (Fork l a v r)))"
    using ds by (simp only: addrs_balance_table)
  with balance_refines[OF lk ds] have
    "\<exists>h'. balance h p = ret (h', entry (balance_table (Fork l a v r))) \<and>
           tree_at h' (balance_table (Fork l a v r)) (entry (balance_table (Fork l a v r)))"
    unfolding tree_at_def by blast
  with height_linked[OF lk] difference_linked[OF lk] balance_selects[OF lk]
  show ?thesis by blast
qed

theorem balance_decision_table_witness:
  "tree_at chain_cells chain_shape (Some 0) \<and>
   height chain_cells (Some 0) = ret 3 \<and>
   difference chain_cells (Some 0) = ret (- 2) \<and>
   balance chain_cells (Some 0) = rr_rotation chain_cells (Some 0) \<and>
   balance chain_cells (Some 0) = ret (rotated_cells, Some 1) \<and>
   balance_table chain_shape = Fork (Fork Tip 0 1 Tip) 1 2 (Fork Tip 2 3 Tip)"
proof -
  have t: "tree_at chain_cells (Fork Tip 0 1 (Fork Tip 1 2 (Fork Tip 2 3 Tip))) (Some 0)"
    by (simp add: tree_at_def chain_cells_def)
  have r: "rr_rotation chain_cells (Some 0) = ret (rotated_cells, Some 1)"
    by (simp add: rr_rotation_def deref_def update_def chain_cells_def rotated_cells_def)
  from balance_decision_table[OF t] t r show ?thesis
    by (simp add: chain_shape_def)
qed

text \<open>
  C6.  \<open>kSmallest\<close> throws \<open>InvalidArgument\<close> exactly when \<open>k < 1\<close> or
  \<open>k > elements\<close>, and for every \<open>k\<close> from 1 to \<open>elements\<close> it returns the \<open>k\<close>-th
  smallest key.  The range check is against the counter \<open>elements\<close>, which
  \<open>deleteNode\<close> does not decrement on the zero/one-child path (the defect of C4).  After
  inserting 1 and 2 and deleting 1 the tree holds the single key 2 and \<open>elements\<close> is 2:
  \<open>kSmallest\<close> with \<open>k = 1\<close> returns 2, and with \<open>k = 2\<close> it passes the range check,
  visits one node and returns the initial value \<open>INT_MIN\<close> of \<open>ksmall\<close>, which is no key
  of the tree.
\<close>

theorem kSmallest_after_delete_returns_INT_MIN:
  "bind (run avl_tree [Insert 1, Insert 2, Delete 1]) (\<lambda>s.
   bind (inorder (cells s) (root s)) (\<lambda>ks.
   bind (kSmallest s (root s) 1) (\<lambda>(s1, x1).
   bind (kSmallest s (root s) 2) (\<lambda>(s2, x2).
   ret (getNumElements s, ks, x1, x2))))) = ret (2, [2], 2, - 2147483648)"
  by (simp add: run_simps inorder.simps kSmallest_def kSmallest_loop.simps
      kSmallest_pre.simps INT_MIN_def getNumElements_def)

text \<open>
  C7.  When \<open>kSmallest\<close> returns for a valid \<open>k\<close>, the whole state is the one before the
  call: every cell of the store (hence every child pointer rewired by the threading), the
  root and the element count.
\<close>

theorem kSmallest_restores_store:
  assumes "tree_at (cells s) t p" and "1 \<le> k" and "k \<le> elements s"
  shows "\<exists>x. kSmallest s p k = ret (s, x)"
  using assms(2,3) by (simp add: kSmallest_def loop_result[OF assms(1)])

theorem kSmallest_restores_store_witness:
  "tree_at (cells ex_state) ex_shape (Some 0) \<and> (1::int) \<le> 2 \<and> 2 \<le> elements ex_state \<and>
   (\<exists>x. kSmallest ex_state (Some 0) 2 = ret (ex_state, x))"
proof -
  have t: "tree_at (cells ex_state) ex_shape (Some 0)"
    using ex_tree_at by (simp add: ex_state_def)
  have k: "(1::int) \<le> 2" "2 \<le> elements ex_state" by (simp_all add: ex_state_def)
  from kSmallest_restores_store[OF t k] t k show ?thesis by simp
qed

text \<open>
  C8.  In every reachable state \<open>elements\<close> is the number of keys below \<open>x\<close> plus the
  number of keys above \<open>x\<close> plus one if \<open>x\<close> is present.  After inserting 1 and 2 and
  deleting 1 the tree holds the single key 2, but \<open>elements\<close> is still 2 (the defect of C4):
  for \<open>x = 5\<close> the counts are 1 and 0 and the search fails.
\<close>

theorem count_identity_fails_after_delete:
  "bind (run avl_tree [Insert 1, Insert 2, Delete 1]) (\<lambda>s.
   bind (numNodesSmallerThan (cells s) (root s) 5) (\<lambda>smaller.
   bind (numNodesGreaterThan (cells s) (root s) 5) (\<lambda>greater.
   bind (search (cells s) (root s) 5) (\<lambda>found.
   ret (getNumElements s, smaller, greater, found))))) = ret (2, 1, 0, None)"
  by (simp add: run_simps numNodes.simps numNodesSmallerThan.simps numNodesGreaterThan.simps
      search.simps getNumElements_def)



text \<open>
  C10.  On a tree laid out in the store without sharing, and for every \<open>k\<close> that passes
  the range check, the traversal loop of \<open>kSmallest\<close> terminates: started at the root from
  any value of the counters it leaves through \<open>curr == nullptr\<close> and returns, and so does
  the call.  (A computation that does not return has the value \<open>None\<close>, a fault is
  \<open>fail e\<close>; \<open>ret r\<close> is a normal return.)  The proof is \<open>loop_traverse\<close>: a thread
  to a node is removed when the loop comes back to that node, so the loop leaves every
  subtree through the pointer that follows it.
\<close>

theorem kSmallest_terminates:
  assumes "tree_at (cells s) t p" and "1 \<le> k" and "k \<le> elements s"
  shows "(\<exists>r. kSmallest_loop (cells s) k count ksmall p = ret r) \<and>
         (\<exists>r. kSmallest s p k = ret r)"
  using assms(2,3) by (simp add: kSmallest_def loop_result[OF assms(1)])

theorem kSmallest_terminates_witness:
  "tree_at (cells ex_state) ex_shape (Some 0) \<and> (1::int) \<le> 3 \<and> 3 \<le> elements ex_state \<and>
   (\<exists>r. kSmallest_loop (cells ex_state) 3 0 INT_MIN (Some 0) = ret r) \<and>
   (\<exists>r. kSmallest ex_state (Some 0) 3 = ret r)"
proof -
  have t: "tree_at (cells ex_state) ex_shape (Some 0)"
    using ex_tree_at by (simp add: ex_state_def)
  have k: "(1::int) \<le> 3" "3 \<le> elements ex_state" by (simp_all add: ex_state_def)
  from kSmallest_terminates[OF t k] t k show ?thesis by simp
qed

end
